theory Spec2Isabelle
  imports Main "HOL-Library.Word"
begin

unbundle bit_operations_syntax

section \<open>The fixed-width integer: \<open>class BigInt4096\<close>\<close>

text \<open>
  \<open>std::array<uint64_t, NUM_WORDS> data\<close>: exactly 64 words of 64 bits, least significant
  word first. The type holds the lists of that length and nothing else, as the array does;
  \<open>data a ! i\<close> reads \<open>data[i]\<close> and \<open>upd a i w\<close> is the object after \<open>data[i] = w\<close>.
  Every index the operations below use is shown to be below 64 by the loops' ranges.
\<close>

definition NUM_WORDS :: nat where
  "NUM_WORDS = 64"

typedef BigInt4096 = "{xs :: 64 word list. length xs = 64}"
  morphisms data Abs_BigInt4096
  by (rule exI [of _ "replicate 64 0"]) simp

declare data_inverse [code abstype]

definition upd :: "BigInt4096 \<Rightarrow> nat \<Rightarrow> 64 word \<Rightarrow> BigInt4096" where
  "upd a i w = Abs_BigInt4096 ((data a)[i := w])"

text \<open>\<open>BigInt4096()\<close>: \<open>data.fill(0)\<close>.\<close>

definition zero :: BigInt4096 where
  "zero = Abs_BigInt4096 (replicate 64 0)"

lemma data_upd [code abstract]: "data (upd a i w) = (data a)[i := w]"
  using data [of a] by (simp add: upd_def Abs_BigInt4096_inverse)

lemma data_zero [code abstract]: "data zero = replicate 64 0"
  by (simp add: zero_def Abs_BigInt4096_inverse)

text \<open>\<open>BigInt4096(uint64_t value)\<close>: \<open>data.fill(0); data[0] = value\<close>.\<close>

definition BigInt :: "64 word \<Rightarrow> BigInt4096" where
  "BigInt v = upd zero 0 v"

text \<open>
  The errors of the model. \<open>DivisionByZero\<close> is the \<open>std::runtime_error\<close> that
  \<open>operator/\<close>, \<open>operator%\<close> and \<open>modExp\<close> throw on a zero divisor. \<open>OutOfBounds\<close> is
  not an exception of the program: it marks a read past the end of the five-entry table
  \<open>basePrimes\<close> in \<open>isPrime\<close>, which C++ leaves undefined.
\<close>

datatype error = DivisionByZero | OutOfBounds

subsection \<open>Comparison\<close>

text \<open>\<open>operator==\<close> compares the arrays; \<open>operator<\<close> walks from word 63 down to word 0
  and returns at the first word that differs.\<close>

definition eq :: "BigInt4096 \<Rightarrow> BigInt4096 \<Rightarrow> bool" where
  "eq a rhs \<longleftrightarrow> data a = data rhs"

fun less_loop :: "BigInt4096 \<Rightarrow> BigInt4096 \<Rightarrow> nat list \<Rightarrow> bool" where
  "less_loop a rhs [] = False"
| "less_loop a rhs (i # js) =
     (if data a ! i < data rhs ! i then True
      else if data a ! i > data rhs ! i then False
      else less_loop a rhs js)"

definition less :: "BigInt4096 \<Rightarrow> BigInt4096 \<Rightarrow> bool" where
  "less a rhs = less_loop a rhs (rev [0..<NUM_WORDS])"

definition gt :: "BigInt4096 \<Rightarrow> BigInt4096 \<Rightarrow> bool" where
  "gt a rhs = less rhs a"

definition le :: "BigInt4096 \<Rightarrow> BigInt4096 \<Rightarrow> bool" where
  "le a rhs = (\<not> less rhs a)"

definition ge :: "BigInt4096 \<Rightarrow> BigInt4096 \<Rightarrow> bool" where
  "ge a rhs = (\<not> less a rhs)"

subsection \<open>Addition, subtraction, multiplication\<close>

text \<open>
  \<open>operator+\<close>: one pass over the words with a carry; the sum of two words and the carry
  is formed in \<open>__uint128_t\<close>, its low half is stored and its high half is the next carry.
  The state of the loop is \<open>(res, carry)\<close>.
\<close>

definition add_step :: "BigInt4096 \<Rightarrow> BigInt4096 \<Rightarrow> nat \<Rightarrow> BigInt4096 \<times> 64 word
    \<Rightarrow> BigInt4096 \<times> 64 word" where
  "add_step a rhs i = (\<lambda>(res, carry).
     let sum = (ucast (data a ! i) :: 128 word) + ucast (data rhs ! i) + ucast carry
     in (upd res i (ucast sum), ucast (drop_bit 64 sum)))"

definition add :: "BigInt4096 \<Rightarrow> BigInt4096 \<Rightarrow> BigInt4096" where
  "add a rhs = fst (fold (add_step a rhs) [0..<NUM_WORDS] (zero, 0))"

text \<open>
  \<open>operator-\<close>: the difference is formed in \<open>__uint128_t\<close>, where it wraps; its low half
  is stored and its bit 127 is the next borrow.
\<close>

definition sub_step :: "BigInt4096 \<Rightarrow> BigInt4096 \<Rightarrow> nat \<Rightarrow> BigInt4096 \<times> 64 word
    \<Rightarrow> BigInt4096 \<times> 64 word" where
  "sub_step a rhs i = (\<lambda>(res, borrow).
     let sub = (ucast (data a ! i) :: 128 word) - ucast (data rhs ! i) - ucast borrow
     in (upd res i (ucast sub), ucast (drop_bit 127 sub AND 1)))"

definition sub :: "BigInt4096 \<Rightarrow> BigInt4096 \<Rightarrow> BigInt4096" where
  "sub a rhs = fst (fold (sub_step a rhs) [0..<NUM_WORDS] (zero, 0))"

text \<open>
  \<open>operator*\<close>: for each word \<open>i\<close> of the left operand that is not zero, the inner loop
  runs over the \<open>j\<close> with \<open>j + i < NUM_WORDS\<close>, adds \<open>data[i] * rhs.data[j]\<close> and the carry
  into \<open>res.data[i + j]\<close>; the carry left after the last \<open>j\<close> is dropped.
\<close>

definition mul_inner :: "BigInt4096 \<Rightarrow> BigInt4096 \<Rightarrow> nat \<Rightarrow> nat \<Rightarrow> BigInt4096 \<times> 64 word
    \<Rightarrow> BigInt4096 \<times> 64 word" where
  "mul_inner a rhs i j = (\<lambda>(res, carry).
     let mul = (ucast (data a ! i) :: 128 word) * ucast (data rhs ! j)
                 + ucast (data res ! (i + j)) + ucast carry
     in (upd res (i + j) (ucast mul), ucast (drop_bit 64 mul)))"

definition mul_outer :: "BigInt4096 \<Rightarrow> BigInt4096 \<Rightarrow> nat \<Rightarrow> BigInt4096 \<Rightarrow> BigInt4096" where
  "mul_outer a rhs i res =
     (if data a ! i = 0 then res
      else fst (fold (mul_inner a rhs i) [0..<NUM_WORDS - i] (res, 0)))"

definition mul :: "BigInt4096 \<Rightarrow> BigInt4096 \<Rightarrow> BigInt4096" where
  "mul a rhs = fold (mul_outer a rhs) [0..<NUM_WORDS] zero"

subsection \<open>Shifts\<close>

text \<open>
  \<open>operator<<(size_t shift)\<close> and \<open>operator>>(size_t shift)\<close>. The count is a natural
  number here: the code only divides it by 64 and adds small indices to the quotient, so
  nothing wraps in \<open>size_t\<close>. In \<open>operator<<\<close> the loop runs from word 63 down to word 0;
  the cast \<open>(int)(wordShift + 1)\<close> is only reached when \<open>wordShift \<le> i \<le> 63\<close>.
\<close>

definition shl_step :: "BigInt4096 \<Rightarrow> nat \<Rightarrow> nat \<Rightarrow> nat \<Rightarrow> BigInt4096 \<Rightarrow> BigInt4096" where
  "shl_step a wordShift bitShift i res =
     (if i < wordShift then res
      else
        let lower = push_bit bitShift (data a ! (i - wordShift));
            upper = (if bitShift \<noteq> 0 \<and> i \<ge> wordShift + 1
                     then drop_bit (64 - bitShift) (data a ! (i - wordShift - 1)) else 0)
        in upd res i (lower OR upper))"

definition shl :: "BigInt4096 \<Rightarrow> nat \<Rightarrow> BigInt4096" where
  "shl a shift =
     fold (shl_step a (shift div 64) (shift mod 64)) (rev [0..<NUM_WORDS]) zero"

definition shr_step :: "BigInt4096 \<Rightarrow> nat \<Rightarrow> nat \<Rightarrow> nat \<Rightarrow> BigInt4096 \<Rightarrow> BigInt4096" where
  "shr_step a wordShift bitShift i res =
     (if i + wordShift \<ge> NUM_WORDS then res
      else
        let upper = drop_bit bitShift (data a ! (i + wordShift));
            lower = (if bitShift \<noteq> 0 \<and> i + wordShift + 1 < NUM_WORDS
                     then push_bit (64 - bitShift) (data a ! (i + wordShift + 1)) else 0)
        in upd res i (upper OR lower))"

definition shr :: "BigInt4096 \<Rightarrow> nat \<Rightarrow> BigInt4096" where
  "shr a shift =
     fold (shr_step a (shift div 64) (shift mod 64)) [0..<NUM_WORDS] zero"

subsection \<open>Division and modulo\<close>

text \<open>
  \<open>operator/\<close> and \<open>operator%\<close>: restoring long division over the bit positions
  4095 down to 0. Both throw when \<open>rhs == 0\<close>. The state of the loop of \<open>operator/\<close> is
  \<open>(current, quotient)\<close>, that of \<open>operator%\<close> is \<open>current\<close>.
\<close>

definition next_current :: "BigInt4096 \<Rightarrow> nat \<Rightarrow> BigInt4096 \<Rightarrow> BigInt4096" where
  "next_current dividend i current =
     (let current = shl current 1
      in upd current 0
           (data current ! 0 OR (drop_bit (i mod 64) (data dividend ! (i div 64)) AND 1)))"

definition div_step :: "BigInt4096 \<Rightarrow> BigInt4096 \<Rightarrow> nat \<Rightarrow> BigInt4096 \<times> BigInt4096
    \<Rightarrow> BigInt4096 \<times> BigInt4096" where
  "div_step dividend divisor i = (\<lambda>(current, quotient).
     let current = next_current dividend i current
     in if ge current divisor
        then (sub current divisor,
              upd quotient (i div 64) (data quotient ! (i div 64) OR push_bit (i mod 64) 1))
        else (current, quotient))"

definition divide :: "BigInt4096 \<Rightarrow> BigInt4096 \<Rightarrow> error + BigInt4096" where
  "divide a rhs =
     (if eq rhs (BigInt 0) then Inl DivisionByZero
      else Inr (snd (fold (div_step a rhs) (rev [0..<NUM_WORDS * 64]) (zero, zero))))"

definition mod_step :: "BigInt4096 \<Rightarrow> BigInt4096 \<Rightarrow> nat \<Rightarrow> BigInt4096 \<Rightarrow> BigInt4096" where
  "mod_step dividend divisor i current =
     (let current = next_current dividend i current
      in if ge current divisor then sub current divisor else current)"

definition modulo :: "BigInt4096 \<Rightarrow> BigInt4096 \<Rightarrow> error + BigInt4096" where
  "modulo a rhs =
     (if eq rhs (BigInt 0) then Inl DivisionByZero
      else Inr (fold (mod_step a rhs) (rev [0..<NUM_WORDS * 64]) zero))"

subsection \<open>Decimal text\<close>

text \<open>
  \<open>BigInt4096(const std::string&)\<close>: every character outside \<open>'0'..'9'\<close> is skipped, every
  digit does \<open>*this *= 10; *this += c - '0'\<close>.
\<close>

definition parse_step :: "char \<Rightarrow> BigInt4096 \<Rightarrow> BigInt4096" where
  "parse_step c this =
     (if (of_char c :: nat) < of_char CHR ''0'' \<or> (of_char c :: nat) > of_char CHR ''9''
      then this
      else add (mul this (BigInt 10)) (BigInt (of_nat (of_char c - of_char CHR ''0''))))"

definition parse :: "string \<Rightarrow> BigInt4096" where
  "parse decimal = fold parse_step decimal zero"

text \<open>The value of a \<open>BigInt4096\<close>: the sum of \<open>data[i] * 2^(64 * i)\<close>.\<close>

definition val :: "BigInt4096 \<Rightarrow> nat" where
  "val a = (\<Sum>i<NUM_WORDS. unat (data a ! i) * 2 ^ (64 * i))"

section \<open>Words of the array and partial values\<close>

lemma length_data [simp]: "length (data a) = 64"
  using data [of a] by simp

lemma nth_upd: "i < 64 \<Longrightarrow> data (upd a i w) ! j = (if j = i then w else data a ! j)"
  by (simp add: data_upd nth_list_update)

lemma nth_zero [simp]: "i < 64 \<Longrightarrow> data zero ! i = 0"
  by (simp add: data_zero)

lemma BigInt4096_eqI:
  assumes "\<And>i. i < 64 \<Longrightarrow> data a ! i = data b ! i"
  shows "a = b"
proof -
  have "data a = data b"
    by (rule nth_equalityI) (simp_all add: assms)
  then show ?thesis by (simp add: data_inject)
qed

lemma eq_iff [simp]: "eq a b \<longleftrightarrow> a = b"
  by (simp add: eq_def data_inject)

text \<open>The value of the lowest \<open>n\<close> words.\<close>

definition pval :: "BigInt4096 \<Rightarrow> nat \<Rightarrow> nat" where
  "pval a n = (\<Sum>i<n. unat (data a ! i) * 2 ^ (64 * i))"

lemma val_pval: "val a = pval a 64"
  by (simp add: val_def pval_def NUM_WORDS_def)

lemma pval_0 [simp]: "pval a 0 = 0"
  by (simp add: pval_def)

lemma pval_Suc: "pval a (Suc n) = pval a n + unat (data a ! n) * 2 ^ (64 * n)"
  by (simp add: pval_def)

lemma pval_upd_ge: "n \<le> i \<Longrightarrow> pval (upd a i w) n = pval a n"
  by (cases "i < 64") (simp_all add: pval_def data_upd)

lemma unat_lt64: "unat (w :: 64 word) < 2 ^ 64"
  using unsigned_less [of w, where 'a = nat] by simp

lemma uint_lt64: "uint (w :: 64 word) < 2 ^ 64"
  using unsigned_less [of w, where 'a = int] by simp

lemma pval_bound: "pval a n < 2 ^ (64 * n)"
proof (induction n)
  case 0
  show ?case by simp
next
  case (Suc n)
  have "unat (data a ! n) + 1 \<le> 2 ^ 64"
    using unat_lt64 [of "data a ! n"] by linarith
  then have "(unat (data a ! n) + 1) * 2 ^ (64 * n) \<le> 2 ^ 64 * 2 ^ (64 * n)"
    by (rule mult_le_mono1)
  also have "\<dots> = 2 ^ (64 * Suc n)"
    by (simp only: power_add [symmetric]) simp
  finally have "unat (data a ! n) * 2 ^ (64 * n) + 2 ^ (64 * n) \<le> 2 ^ (64 * Suc n)"
    by (simp only: add_mult_distrib mult_1)
  with Suc show ?case
    unfolding pval_Suc by linarith
qed

lemma val_bound: "val a < 2 ^ 4096"
  using pval_bound [of a 64] by (simp add: val_pval)

subsection \<open>The 128-bit intermediates\<close>

lemma unat_up [simp]: "unat (ucast (x :: 64 word) :: 128 word) = unat x"
  by (simp add: unsigned_ucast_eq take_bit_nat_eq_self_iff order_less_trans [OF unat_lt64])

lemma uint_up [simp]: "uint (ucast (x :: 64 word) :: 128 word) = uint x"
  using uint_lt64 [of x] by (simp add: unsigned_ucast_eq take_bit_int_eq_self_iff)

lemma unat_sum128:
  fixes x y c :: "64 word"
  shows "unat ((ucast x :: 128 word) + ucast y + ucast c) = unat x + unat y + unat c"
proof -
  have "unat x + unat y + unat c < 2 ^ 128"
    using unat_lt64 [of x] unat_lt64 [of y] unat_lt64 [of c] by simp
  then show ?thesis
    by (simp add: unat_word_ariths mod_add_left_eq)
qed

lemma unat_mul128:
  fixes x y r c :: "64 word"
  shows "unat ((ucast x :: 128 word) * ucast y + ucast r + ucast c)
         = unat x * unat y + unat r + unat c"
proof -
  have "unat x \<le> 2 ^ 64 - 1" "unat y \<le> 2 ^ 64 - 1"
    using unat_lt64 [of x] unat_lt64 [of y] by simp_all
  then have "unat x * unat y \<le> (2 ^ 64 - 1) * (2 ^ 64 - 1)"
    by (rule mult_le_mono)
  then have "unat x * unat y + unat r + unat c < 2 ^ 128"
    using unat_lt64 [of r] unat_lt64 [of c] by simp
  then show ?thesis
    by (simp add: unat_word_ariths mod_simps)
qed

lemma unat_ucast_low:
  fixes s :: "128 word"
  shows "unat (ucast s :: 64 word) = unat s mod 2 ^ 64"
  by (simp add: unsigned_ucast_eq take_bit_eq_mod)

lemma unat_ucast_high:
  fixes s :: "128 word"
  shows "unat (ucast (drop_bit 64 s) :: 64 word) = unat s div 2 ^ 64"
proof -
  have "unat s div 2 ^ 64 < 2 ^ 64"
    using unsigned_less [of s, where 'a = nat] by (simp add: less_mult_imp_div_less)
  then show ?thesis
    by (simp add: unsigned_ucast_eq drop_bit_eq_div unat_div_distrib take_bit_nat_eq_self_iff)
qed

lemma uint_sub128:
  fixes x y b :: "64 word"
  shows "uint ((ucast x :: 128 word) - ucast y - ucast b)
         = (uint x - uint y - uint b) mod 2 ^ 128"
  by (simp add: uint_word_ariths mod_simps)

lemma int_mod_cases:
  fixes d m :: int
  assumes "- m \<le> d" "d < m"
  shows "d mod m = (if d < 0 then d + m else d)"
proof (cases "d < 0")
  case True
  have "(d + m) mod m = d + m"
    using assms True by (intro mod_pos_pos_trivial) simp_all
  then show ?thesis using True by simp
next
  case False
  then show ?thesis using assms by simp
qed

lemma borrow_bounds:
  fixes X Y B M :: int
  assumes "0 \<le> X" "X < M" "0 \<le> Y" "Y < M" "0 \<le> B" "B \<le> 1"
  shows "- M \<le> X - Y - B" "X - Y - B < M"
  using assms by linarith+

lemma sub128_diff_bounds:
  fixes x y b :: "64 word"
  assumes b: "uint b \<le> 1"
  shows "- (2 ^ 64) \<le> uint x - uint y - uint b" "uint x - uint y - uint b < 2 ^ 64"
proof -
  show "- (2 ^ 64) \<le> uint x - uint y - uint b"
    by (rule borrow_bounds(1) [OF uint_ge_0 uint_lt64 uint_ge_0 uint_lt64 uint_ge_0 b])
  show "uint x - uint y - uint b < 2 ^ 64"
    by (rule borrow_bounds(2) [OF uint_ge_0 uint_lt64 uint_ge_0 uint_lt64 uint_ge_0 b])
qed

lemma sub128_low:
  fixes x y b :: "64 word"
  assumes b: "uint b \<le> 1"
  shows "uint (ucast ((ucast x :: 128 word) - ucast y - ucast b) :: 64 word)
         = (let d = uint x - uint y - uint b in if d < 0 then d + 2 ^ 64 else d)"
proof -
  let ?d = "uint x - uint y - uint b"
  have "uint (ucast ((ucast x :: 128 word) - ucast y - ucast b) :: 64 word)
        = (?d mod 2 ^ 128) mod 2 ^ 64"
    by (simp only: unsigned_ucast_eq uint_sub128 take_bit_eq_mod) simp
  also have "\<dots> = ?d mod 2 ^ 64"
    by (rule mod_mod_cancel) simp
  also have "\<dots> = (if ?d < 0 then ?d + 2 ^ 64 else ?d)"
    using sub128_diff_bounds [OF assms] by (rule int_mod_cases)
  finally show ?thesis
    by (simp only: Let_def)
qed

lemma div_eq_1:
  fixes v K :: int
  assumes "K \<le> v" "v < 2 * K"
  shows "v div K = 1"
proof -
  have "0 < K" using assms by linarith
  have "(v - K) div K = 0"
    using assms by (intro div_pos_pos_trivial) linarith+
  moreover have "(v - K) div K = v div K - 1"
    using \<open>0 < K\<close> div_add_self2 [of K "v - K"] by simp
  ultimately show ?thesis by simp
qed

lemma high_bit_cases:
  fixes d M :: int
  assumes "- M \<le> d" "d < M" "M * M = 2 * K" "2 \<le> M" "2 * M \<le> K"
  shows "(if d < 0 then d + M * M else d) div K = (if d < 0 then 1 else 0)"
proof (cases "d < 0")
  case True
  have "K \<le> d + M * M" using assms True by linarith
  moreover have "d + M * M < 2 * K" using assms True by linarith
  ultimately show ?thesis using True by (simp add: div_eq_1)
next
  case False
  then have "d div K = 0" using assms by (intro div_pos_pos_trivial) linarith+
  then show ?thesis using False by simp
qed

lemma sub128_borrow:
  fixes x y b :: "64 word"
  assumes b: "uint b \<le> 1"
  shows "(ucast (drop_bit 127 ((ucast x :: 128 word) - ucast y - ucast b) AND 1) :: 64 word)
         = (if uint x - uint y - uint b < 0 then 1 else 0)"
proof -
  let ?s = "(ucast x :: 128 word) - ucast y - ucast b"
  let ?d = "uint x - uint y - uint b"
  have le: "- (2 ^ 128) \<le> ?d"
    by (rule order_trans [OF _ sub128_diff_bounds(1) [OF assms]]) simp
  have lt: "?d < 2 ^ 128"
    by (rule order_less_le_trans [OF sub128_diff_bounds(2) [OF assms]]) simp
  have s: "uint ?s = (if ?d < 0 then ?d + 2 ^ 64 * 2 ^ 64 else ?d)"
    using int_mod_cases [OF le lt] by (simp only: uint_sub128) simp
  have "uint (drop_bit 127 ?s) = uint ?s div 2 ^ 127"
    by (simp add: drop_bit_eq_div uint_div_distrib)
  also have "\<dots> = (if ?d < 0 then 1 else 0)"
    unfolding s using sub128_diff_bounds [OF assms, of x y]
    by (rule high_bit_cases) simp_all
  finally have "drop_bit 127 ?s = (if ?d < 0 then 1 else 0)"
    by (simp add: word_eq_iff_unsigned [where ?'a = int] split: if_splits)
  then show ?thesis by simp
qed

section \<open>Addition, subtraction and multiplication compute modulo \<open>2 ^ 4096\<close>\<close>

text \<open>Powers of two stay symbolic in what follows.\<close>

declare power_numeral [simp del]

lemma fold_upt_Suc: "fold f [0..<Suc n] s = f n (fold f [0..<n] s)"
  by simp

lemma pow64_Suc: "(2::'a::comm_semiring_1) ^ (64 * Suc n) = 2 ^ 64 * 2 ^ (64 * n)"
  by (simp only: power_add [symmetric]) simp

lemma pval_upd_Suc:
  assumes "n < 64"
  shows "pval (upd res n w) (Suc n) = pval res n + unat w * 2 ^ (64 * n)"
  using assms by (simp add: pval_Suc pval_upd_ge nth_upd)

lemma carry_step:
  fixes P C A B X Y E M s :: nat
  assumes "P + C * E = A + B" "s = X + Y + C"
  shows "P + (s mod M) * E + (s div M) * (M * E) = (A + X * E) + (B + Y * E)"
proof -
  have "(s mod M) * E + (s div M) * (M * E) = (s mod M + s div M * M) * E"
    by (simp only: add_mult_distrib mult.assoc)
  also have "\<dots> = s * E" by simp
  finally have "P + (s mod M) * E + (s div M) * (M * E) = P + s * E" by simp
  also have "\<dots> = (P + C * E) + X * E + Y * E"
    by (simp add: assms(2) add_mult_distrib)
  finally show ?thesis by (simp add: assms(1))
qed

lemma add_step_eq:
  "add_step a b n (res, carry) =
     (upd res n (ucast ((ucast (data a ! n) :: 128 word) + ucast (data b ! n) + ucast carry)),
      ucast (drop_bit 64 ((ucast (data a ! n) :: 128 word) + ucast (data b ! n) + ucast carry)))"
  by (simp add: add_step_def Let_def)

lemma add_loop_inv:
  assumes "n \<le> 64"
  shows "pval (fst (fold (add_step a b) [0..<n] (zero, 0))) n
           + unat (snd (fold (add_step a b) [0..<n] (zero, 0))) * 2 ^ (64 * n)
         = pval a n + pval b n"
  using assms
proof (induction n)
  case 0
  show ?case by simp
next
  case (Suc n)
  obtain res carry where st: "fold (add_step a b) [0..<n] (zero, 0) = (res, carry)"
    by (cases "fold (add_step a b) [0..<n] (zero, 0)")
  let ?s = "unat (data a ! n) + unat (data b ! n) + unat carry"
  from Suc st have IH: "pval res n + unat carry * 2 ^ (64 * n) = pval a n + pval b n"
    by simp
  have n: "n < 64" using Suc.prems by simp
  define s128 where "s128 = (ucast (data a ! n) :: 128 word) + ucast (data b ! n) + ucast carry"
  have step: "fold (add_step a b) [0..<Suc n] (zero, 0)
              = (upd res n (ucast s128), ucast (drop_bit 64 s128))"
    by (simp only: fold_upt_Suc st add_step_eq s128_def)
  have s: "unat s128 = ?s"
    by (simp only: s128_def unat_sum128)
  have "pval res n + (?s mod 2 ^ 64) * 2 ^ (64 * n) + (?s div 2 ^ 64) * (2 ^ 64 * 2 ^ (64 * n))
        = (pval a n + unat (data a ! n) * 2 ^ (64 * n)) + (pval b n + unat (data b ! n) * 2 ^ (64 * n))"
    using IH by (rule carry_step) simp
  moreover have "pval (upd res n (ucast s128)) (Suc n) = pval res n + (?s mod 2 ^ 64) * 2 ^ (64 * n)"
    by (simp only: pval_upd_Suc [OF n] unat_ucast_low s)
  moreover have "unat (ucast (drop_bit 64 s128) :: 64 word) = ?s div 2 ^ 64"
    by (simp only: unat_ucast_high s)
  ultimately show ?case
    by (simp only: step fst_conv snd_conv pow64_Suc pval_Suc [of a n] pval_Suc [of b n])
qed

lemma val_add: "val (add a b) = (val a + val b) mod 2 ^ 4096"
proof -
  let ?st = "fold (add_step a b) [0..<64] (zero, 0)"
  have "val (fst ?st) + unat (snd ?st) * 2 ^ 4096 = val a + val b"
    using add_loop_inv [of 64 a b] by (simp add: val_pval)
  then have "(val a + val b) mod 2 ^ 4096 = (val (fst ?st) + unat (snd ?st) * 2 ^ 4096) mod 2 ^ 4096"
    by simp
  also have "\<dots> = val (fst ?st)"
    using val_bound [of "fst ?st"] by simp
  finally show ?thesis
    by (simp add: add_def NUM_WORDS_def)
qed


lemma mod_diff_mult_self:
  fixes x c m :: int
  shows "(x - c * m) mod m = x mod m"
proof -
  have "(x - c * m) mod m = (x + (- c) * m) mod m" by simp
  also have "\<dots> = x mod m" by (rule mod_mult_self1)
  finally show ?thesis .
qed

lemma borrow_step:
  fixes P A B X Y E M w b b' :: int
  assumes "P = A - B + b * E" "w = X - Y - b + b' * M"
  shows "P + w * E = (A + X * E) - (B + Y * E) + b' * (M * E)"
  by (simp add: assms algebra_simps)

lemma sub_step_eq:
  "sub_step a b n (res, borrow) =
     (upd res n (ucast ((ucast (data a ! n) :: 128 word) - ucast (data b ! n) - ucast borrow)),
      ucast (drop_bit 127 ((ucast (data a ! n) :: 128 word) - ucast (data b ! n) - ucast borrow) AND 1))"
  by (simp add: sub_step_def Let_def)

lemma int_pval_upd_Suc:
  assumes "n < 64"
  shows "int (pval (upd res n w) (Suc n)) = int (pval res n) + uint w * 2 ^ (64 * n)"
  by (simp add: pval_upd_Suc [OF assms])

lemma int_pval_Suc:
  "int (pval a (Suc n)) = int (pval a n) + uint (data a ! n) * 2 ^ (64 * n)"
  by (simp add: pval_Suc)

lemma sub_loop_inv:
  assumes "n \<le> 64"
  shows "int (pval (fst (fold (sub_step a b) [0..<n] (zero, 0))) n)
         = int (pval a n) - int (pval b n)
           + uint (snd (fold (sub_step a b) [0..<n] (zero, 0))) * 2 ^ (64 * n)
         \<and> uint (snd (fold (sub_step a b) [0..<n] (zero, 0))) \<le> 1"
  using assms
proof (induction n)
  case 0
  show ?case by simp
next
  case (Suc n)
  obtain res borrow where st: "fold (sub_step a b) [0..<n] (zero, 0) = (res, borrow)"
    by (cases "fold (sub_step a b) [0..<n] (zero, 0)")
  from Suc st have IH: "int (pval res n) = int (pval a n) - int (pval b n) + uint borrow * 2 ^ (64 * n)"
    and bw: "uint borrow \<le> 1"
    by simp_all
  have n: "n < 64" using Suc.prems by simp
  let ?d = "uint (data a ! n) - uint (data b ! n) - uint borrow"
  define s128 where "s128 = (ucast (data a ! n) :: 128 word) - ucast (data b ! n) - ucast borrow"
  define w :: "64 word" where "w = ucast s128"
  define borrow' :: "64 word" where "borrow' = ucast (drop_bit 127 s128 AND 1)"
  have step: "fold (sub_step a b) [0..<Suc n] (zero, 0) = (upd res n w, borrow')"
    by (simp only: fold_upt_Suc st sub_step_eq s128_def w_def borrow'_def)
  have b': "borrow' = (if ?d < 0 then 1 else 0)"
    unfolding borrow'_def s128_def by (rule sub128_borrow [OF bw])
  have w: "uint w = ?d + uint borrow' * 2 ^ 64"
    unfolding w_def s128_def sub128_low [OF bw] b' by (simp add: Let_def)
  have "int (pval res n) + uint w * 2 ^ (64 * n)
        = (int (pval a n) + uint (data a ! n) * 2 ^ (64 * n))
          - (int (pval b n) + uint (data b ! n) * 2 ^ (64 * n))
          + uint borrow' * (2 ^ 64 * 2 ^ (64 * n))"
    using IH w by (rule borrow_step)
  moreover have "uint borrow' \<le> 1"
    by (simp add: b')
  ultimately show ?case
    by (simp only: step fst_conv snd_conv int_pval_upd_Suc [OF n] pow64_Suc
        int_pval_Suc [of a n] int_pval_Suc [of b n] simp_thms)
qed

lemma val_sub: "int (val (sub a b)) = (int (val a) - int (val b)) mod 2 ^ 4096"
proof -
  let ?st = "fold (sub_step a b) [0..<64] (zero, 0)"
  have "int (val (fst ?st)) = int (val a) - int (val b) + uint (snd ?st) * 2 ^ 4096"
    using sub_loop_inv [of 64 a b] by (simp add: val_pval)
  then have "(int (val a) - int (val b)) mod 2 ^ 4096
             = (int (val (fst ?st)) - uint (snd ?st) * 2 ^ 4096) mod 2 ^ 4096"
    by simp
  also have "\<dots> = int (val (fst ?st)) mod 2 ^ 4096"
    by (rule mod_diff_mult_self)
  also have "\<dots> = int (val (fst ?st))"
    using val_bound [of "fst ?st"] by (simp add: mod_pos_pos_trivial)
  finally show ?thesis
    by (simp add: sub_def NUM_WORDS_def)
qed


lemma mul_step:
  fixes P C E Q A F PB s Bm R G M :: nat
  assumes "P + C * E = Q + A * F * PB" "s = A * Bm + R + C" "E = F * G"
  shows "P + (s mod M) * E + (s div M) * (M * E) = (Q + R * E) + A * F * (PB + Bm * G)"
proof -
  have "(s mod M) * E + (s div M) * (M * E) = (s mod M + s div M * M) * E"
    by (simp only: add_mult_distrib mult.assoc)
  also have "\<dots> = s * E" by simp
  finally have "P + (s mod M) * E + (s div M) * (M * E) = P + s * E" by simp
  also have "\<dots> = (P + C * E) + A * Bm * E + R * E"
    by (simp add: assms(2) add_mult_distrib)
  also have "\<dots> = Q + A * F * PB + A * Bm * E + R * E"
    by (simp only: assms(1))
  finally show ?thesis by (simp add: algebra_simps assms(3))
qed

lemma mul_inner_eq:
  "mul_inner a b i j (res, carry) =
     (upd res (i + j) (ucast ((ucast (data a ! i) :: 128 word) * ucast (data b ! j)
                               + ucast (data res ! (i + j)) + ucast carry)),
      ucast (drop_bit 64 ((ucast (data a ! i) :: 128 word) * ucast (data b ! j)
                               + ucast (data res ! (i + j)) + ucast carry)))"
  by (simp add: mul_inner_def Let_def)

lemma mul_inner_inv:
  assumes "i + m \<le> 64"
  shows "pval (fst (fold (mul_inner a b i) [0..<m] (res0, 0))) (i + m)
           + unat (snd (fold (mul_inner a b i) [0..<m] (res0, 0))) * 2 ^ (64 * (i + m))
         = pval res0 (i + m) + unat (data a ! i) * 2 ^ (64 * i) * pval b m
         \<and> (\<forall>k. i + m \<le> k \<longrightarrow> k < 64 \<longrightarrow>
               data (fst (fold (mul_inner a b i) [0..<m] (res0, 0))) ! k = data res0 ! k)"
  using assms
proof (induction m)
  case 0
  show ?case by simp
next
  case (Suc m)
  obtain res carry where st: "fold (mul_inner a b i) [0..<m] (res0, 0) = (res, carry)"
    by (cases "fold (mul_inner a b i) [0..<m] (res0, 0)")
  from Suc st have IH: "pval res (i + m) + unat carry * 2 ^ (64 * (i + m))
      = pval res0 (i + m) + unat (data a ! i) * 2 ^ (64 * i) * pval b m"
    and same: "\<And>k. i + m \<le> k \<Longrightarrow> k < 64 \<Longrightarrow> data res ! k = data res0 ! k"
    by simp_all
  have n: "i + m < 64" using Suc.prems by simp
  define s128 where "s128 = (ucast (data a ! i) :: 128 word) * ucast (data b ! m)
                               + ucast (data res ! (i + m)) + ucast carry"
  let ?s = "unat (data a ! i) * unat (data b ! m) + unat (data res0 ! (i + m)) + unat carry"
  have step: "fold (mul_inner a b i) [0..<Suc m] (res0, 0)
              = (upd res (i + m) (ucast s128), ucast (drop_bit 64 s128))"
    by (simp only: fold_upt_Suc st mul_inner_eq s128_def)
  have s: "unat s128 = ?s"
    by (simp only: s128_def unat_mul128 same [OF order_refl n])
  have e: "(2::nat) ^ (64 * (i + m)) = 2 ^ (64 * i) * 2 ^ (64 * m)"
    by (simp only: power_add [symmetric] distrib_left)
  have "pval res (i + m) + (?s mod 2 ^ 64) * 2 ^ (64 * (i + m))
          + (?s div 2 ^ 64) * (2 ^ 64 * 2 ^ (64 * (i + m)))
        = (pval res0 (i + m) + unat (data res0 ! (i + m)) * 2 ^ (64 * (i + m)))
          + unat (data a ! i) * 2 ^ (64 * i) * (pval b m + unat (data b ! m) * 2 ^ (64 * m))"
    using IH _ e by (rule mul_step) simp
  moreover have "pval (upd res (i + m) (ucast s128)) (Suc (i + m))
                 = pval res (i + m) + (?s mod 2 ^ 64) * 2 ^ (64 * (i + m))"
    by (simp only: pval_upd_Suc [OF n] unat_ucast_low s)
  moreover have "unat (ucast (drop_bit 64 s128) :: 64 word) = ?s div 2 ^ 64"
    by (simp only: unat_ucast_high s)
  ultimately have val: "pval (upd res (i + m) (ucast s128)) (Suc (i + m))
      + unat (ucast (drop_bit 64 s128) :: 64 word) * 2 ^ (64 * Suc (i + m))
      = pval res0 (Suc (i + m)) + unat (data a ! i) * 2 ^ (64 * i) * pval b (Suc m)"
    by (simp only: pow64_Suc pval_Suc [of res0 "i + m"] pval_Suc [of b m])
  have "data (upd res (i + m) (ucast s128)) ! k = data res0 ! k"
    if "Suc (i + m) \<le> k" "k < 64" for k
    using that same [of k] by (simp add: nth_upd [OF n])
  with val show ?case
    by (simp only: step fst_conv snd_conv add_Suc_right) simp
qed

lemma pval_split:
  "\<exists>T. pval b (k + d) = pval b k + 2 ^ (64 * k) * T"
proof (induction d)
  case 0
  show ?case by simp
next
  case (Suc d)
  then obtain T where T: "pval b (k + d) = pval b k + 2 ^ (64 * k) * T" ..
  have "pval b (k + Suc d) = pval b k + 2 ^ (64 * k) * (T + unat (data b ! (k + d)) * 2 ^ (64 * d))"
    by (simp only: add_Suc_right pval_Suc T) (simp add: power_add algebra_simps)
  then show ?case ..
qed

lemma mul_outer_step:
  fixes V' C N R A E Pb Vb G T :: nat
  assumes "V' + C * N = R + A * E * Pb" "Vb = Pb + G * T" "E * G = N"
  shows "R + A * E * Vb = V' + (C + A * T) * N"
proof -
  have "R + A * E * Vb = (R + A * E * Pb) + A * T * (E * G)"
    by (simp add: assms(2) algebra_simps)
  also have "\<dots> = V' + C * N + A * T * N"
    by (simp only: assms(1) [symmetric] assms(3))
  also have "\<dots> = V' + (C + A * T) * N"
    by (simp add: algebra_simps)
  finally show ?thesis .
qed

lemma val_mul_outer:
  assumes i: "i < 64"
  shows "val (mul_outer a b i res)
         = (val res + unat (data a ! i) * 2 ^ (64 * i) * val b) mod 2 ^ 4096"
proof (cases "data a ! i = 0")
  case True
  then show ?thesis
    using val_bound [of res] by (simp add: mul_outer_def)
next
  case False
  let ?st = "fold (mul_inner a b i) [0..<64 - i] (res, 0)"
  let ?A = "unat (data a ! i) * 2 ^ (64 * i)"
  have inv: "val (fst ?st) + unat (snd ?st) * 2 ^ 4096 = val res + ?A * pval b (64 - i)"
    using mul_inner_inv [of i "64 - i" a b res] i by (simp add: val_pval)
  obtain T where "pval b (64 - i + i) = pval b (64 - i) + 2 ^ (64 * (64 - i)) * T"
    using pval_split [of b "64 - i" i] ..
  then have T: "val b = pval b (64 - i) + 2 ^ (64 * (64 - i)) * T"
    using i by (simp add: val_pval)
  have p: "(2::nat) ^ (64 * i) * 2 ^ (64 * (64 - i)) = 2 ^ 4096"
    using i by (simp add: power_add [symmetric])
  have "val res + ?A * val b
             = val (fst ?st) + (unat (snd ?st) + unat (data a ! i) * T) * 2 ^ 4096"
    using inv T p by (rule mul_outer_step)
  then have "(val res + ?A * val b) mod 2 ^ 4096 = val (fst ?st) mod 2 ^ 4096"
    by simp
  also have "\<dots> = val (fst ?st)"
    using val_bound [of "fst ?st"] by simp
  finally show ?thesis
    using False by (simp add: mul_outer_def NUM_WORDS_def)
qed

lemma mul_loop_inv:
  assumes "n \<le> 64"
  shows "val (fold (mul_outer a b) [0..<n] zero) = (pval a n * val b) mod 2 ^ 4096"
  using assms
proof (induction n)
  case 0
  show ?case by (simp add: val_pval pval_def)
next
  case (Suc n)
  then have IH: "val (fold (mul_outer a b) [0..<n] zero) = (pval a n * val b) mod 2 ^ 4096"
    and n: "n < 64" by simp_all
  show ?case
    by (simp only: fold_upt_Suc val_mul_outer [OF n] IH pval_Suc mod_add_left_eq add_mult_distrib)
qed

lemma val_mul: "val (mul a b) = (val a * val b) mod 2 ^ 4096"
  using mul_loop_inv [of 64 a b] by (simp add: mul_def NUM_WORDS_def val_pval)

section \<open>Constants, bits of the value, comparison\<close>

lemma pval_zero: "n \<le> 64 \<Longrightarrow> pval zero n = 0"
  by (induction n) (simp_all add: pval_Suc)

lemma val_zero [simp]: "val zero = 0"
  by (simp add: val_pval pval_zero)

lemma nth_BigInt: "i < 64 \<Longrightarrow> data (BigInt v) ! i = (if i = 0 then v else 0)"
  by (simp add: BigInt_def nth_upd)

lemma pval_BigInt: "n < 64 \<Longrightarrow> pval (BigInt v) (Suc n) = unat v"
  by (induction n) (simp_all add: pval_Suc nth_BigInt)

lemma val_BigInt [simp]: "val (BigInt v) = unat v"
  using pval_BigInt [of 63 v] by (simp add: val_pval)

lemma bit_add_mult_pow2:
  fixes x y :: nat
  assumes "x < 2 ^ m"
  shows "bit (x + y * 2 ^ m) k \<longleftrightarrow> (if k < m then bit x k else bit y (k - m))"
proof -
  have "int (x + y * 2 ^ m) = concat_bit m (int x) (int y)"
    using assms by (simp add: concat_bit_eq take_bit_int_eq_self push_bit_eq_mult)
  then have "bit (x + y * 2 ^ m) k \<longleftrightarrow> bit (concat_bit m (int x) (int y)) k"
    by (metis bit_of_nat_iff_bit)
  then show ?thesis
    by (auto simp add: bit_concat_bit_iff bit_of_nat_iff_bit)
qed

lemma div_mod_64:
  fixes k n :: nat
  assumes "64 * n \<le> k" "k < 64 * Suc n"
  shows "k div 64 = n" "k mod 64 = k - 64 * n"
proof -
  show d: "k div 64 = n"
    using assms by (intro div_nat_eqI) simp_all
  show "k mod 64 = k - 64 * n"
    using minus_mult_div_eq_mod [of k 64] by (simp add: d)
qed

lemma bit_pval:
  "bit (pval a n) k \<longleftrightarrow> k < 64 * n \<and> bit (data a ! (k div 64)) (k mod 64)"
proof (induction n)
  case 0
  show ?case by simp
next
  case (Suc n)
  have "bit (pval a (Suc n)) k \<longleftrightarrow>
        (if k < 64 * n then bit (pval a n) k else bit (unat (data a ! n)) (k - 64 * n))"
    unfolding pval_Suc by (rule bit_add_mult_pow2) (rule pval_bound)
  also have "\<dots> \<longleftrightarrow> k < 64 * Suc n \<and> bit (data a ! (k div 64)) (k mod 64)"
  proof (cases "k < 64 * n")
    case True
    then show ?thesis by (simp add: Suc)
  next
    case False
    show ?thesis
    proof (cases "k < 64 * Suc n")
      case True
      with False have "k div 64 = n" "k mod 64 = k - 64 * n"
        by (simp_all add: div_mod_64)
      with False True show ?thesis by (simp add: bit_unsigned_iff)
    next
      case False
      then have "\<not> k - 64 * n < 64" by simp
      then have "\<not> bit (data a ! n) (k - 64 * n)"
        using bit_imp_le_length [of "data a ! n" "k - 64 * n"] by auto
      with False \<open>\<not> k < 64 * n\<close> show ?thesis by (simp add: bit_unsigned_iff)
    qed
  qed
  finally show ?case .
qed

lemma bit_val:
  "bit (val a) k \<longleftrightarrow> k < 4096 \<and> bit (data a ! (k div 64)) (k mod 64)"
  by (simp add: val_pval bit_pval)

lemma val_inject: "val a = val b \<longleftrightarrow> a = b"
proof
  assume eq: "val a = val b"
  show "a = b"
  proof (rule BigInt4096_eqI)
    fix i :: nat
    assume i: "i < 64"
    show "data a ! i = data b ! i"
    proof (rule bit_word_eqI)
      fix j :: nat
      assume "j < LENGTH(64)"
      then have j: "j < 64" by simp
      with i have k: "64 * i + j < 4096" "(64 * i + j) div 64 = i" "(64 * i + j) mod 64 = j"
        by simp_all
      have "bit (val a) (64 * i + j) = bit (val b) (64 * i + j)"
        by (simp only: eq)
      then show "bit (data a ! i) j = bit (data b ! i) j"
        by (simp only: bit_val k simp_thms)
    qed
  qed
qed simp

lemma less_loop_pval:
  assumes "n \<le> 64"
  shows "less_loop a b (rev [0..<n]) \<longleftrightarrow> pval a n < pval b n"
  using assms
proof (induction n)
  case 0
  show ?case by simp
next
  case (Suc n)
  let ?E = "(2::nat) ^ (64 * n)"
  let ?x = "unat (data a ! n)" and ?y = "unat (data b ! n)"
  have IH: "less_loop a b (rev [0..<n]) \<longleftrightarrow> pval a n < pval b n"
    using Suc by simp
  have lt: "pval a n + x * ?E < pval b n + y * ?E" if "x < y" for x y
  proof -
    have "pval a n + x * ?E < ?E + x * ?E" using pval_bound [of a n] by simp
    also have "\<dots> = Suc x * ?E" by simp
    also have "\<dots> \<le> y * ?E" using that by (intro mult_le_mono1) simp
    finally show ?thesis by simp
  qed
  have gt: "\<not> pval a n + x * ?E < pval b n + y * ?E" if "y < x" for x y
  proof -
    have "pval b n + y * ?E < ?E + y * ?E" using pval_bound [of b n] by simp
    also have "\<dots> = Suc y * ?E" by simp
    also have "\<dots> \<le> x * ?E" using that by (intro mult_le_mono1) simp
    finally show ?thesis by simp
  qed
  consider "?x < ?y" | "?y < ?x" | "?x = ?y" by linarith
  then show ?case
  proof cases
    case 1
    then show ?thesis by (simp add: word_less_nat_alt pval_Suc lt)
  next
    case 2
    then show ?thesis by (simp add: word_less_nat_alt pval_Suc gt)
  next
    case 3
    then show ?thesis by (simp add: word_less_nat_alt pval_Suc IH)
  qed
qed

lemma less_iff [simp]: "less a b \<longleftrightarrow> val a < val b"
  by (simp add: less_def NUM_WORDS_def less_loop_pval val_pval)

lemma ge_iff [simp]: "ge a b \<longleftrightarrow> val b \<le> val a"
  by (auto simp add: ge_def)

lemma le_iff [simp]: "le a b \<longleftrightarrow> val a \<le> val b"
  by (auto simp add: le_def)

lemma gt_iff [simp]: "gt a b \<longleftrightarrow> val b < val a"
  by (simp add: gt_def)

text \<open>
  C5: for every \<open>a\<close> and \<open>b\<close>, \<open>operator+\<close> returns \<open>(a + b) mod 2^4096\<close>,
  \<open>operator-\<close> returns \<open>(a - b) mod 2^4096\<close> (an underflow wraps) and \<open>operator*\<close>
  returns \<open>(a * b) mod 2^4096\<close>. The difference is taken over the integers, where
  \<open>mod\<close> is never negative.
\<close>

theorem add_sub_mul_wrap:
  "val (add a b) = (val a + val b) mod 2 ^ 4096
   \<and> int (val (sub a b)) = (int (val a) - int (val b)) mod 2 ^ 4096
   \<and> val (mul a b) = (val a * val b) mod 2 ^ 4096"
  by (simp only: val_add val_sub val_mul simp_thms)

section \<open>Shifts multiply and divide by powers of two\<close>

text \<open>Both loops write each word at most once, with a value that depends on the operand
  only.\<close>

lemma fold_upd_nth:
  assumes "\<forall>i \<in> set js. i < 64"
  shows "data (fold (\<lambda>i res. if P i then res else upd res i (F i)) js res0) ! k
         = (if k \<in> set js \<and> \<not> P k then F k else data res0 ! k)"
  using assms
proof (induction js arbitrary: res0)
  case Nil
  show ?case by simp
next
  case (Cons i js)
  then have i: "i < 64" and js: "\<forall>i \<in> set js. i < 64" by simp_all
  show ?case
    by (simp add: Cons.IH [OF js] nth_upd [OF i])
qed

lemma div_mod_64_add:
  fixes q r :: nat
  assumes "r < 64"
  shows "(64 * q + r) div 64 = q" "(64 * q + r) mod 64 = r"
  using assms by simp_all

lemma not_bit_word64: "64 \<le> n \<Longrightarrow> \<not> bit (w :: 64 word) n"
  using bit_imp_le_length [of w n] by auto

definition shl_word :: "BigInt4096 \<Rightarrow> nat \<Rightarrow> nat \<Rightarrow> nat \<Rightarrow> 64 word" where
  "shl_word a ws bs i =
     (push_bit bs (data a ! (i - ws))
      OR (if bs \<noteq> 0 \<and> ws + 1 \<le> i then drop_bit (64 - bs) (data a ! (i - ws - 1)) else 0))"

lemma nth_shl:
  assumes "k < 64"
  shows "data (shl a s) ! k = (if k < s div 64 then 0 else shl_word a (s div 64) (s mod 64) k)"
proof -
  have "shl_step a (s div 64) (s mod 64)
        = (\<lambda>i res. if i < s div 64 then res else upd res i (shl_word a (s div 64) (s mod 64) i))"
    by (intro ext) (simp add: shl_step_def shl_word_def Let_def)
  then show ?thesis
    using assms by (simp add: shl_def NUM_WORDS_def fold_upd_nth)
qed

lemma shl_bit_word:
  assumes "i < 64" "j < 64" "bs < 64"
  shows "bit (if i < ws then 0 else shl_word a ws bs i) j \<longleftrightarrow>
         64 * ws + bs \<le> 64 * i + j
         \<and> bit (data a ! ((64 * i + j - (64 * ws + bs)) div 64)) ((64 * i + j - (64 * ws + bs)) mod 64)"
proof -
  consider (lo) "i < ws" | (a) "ws \<le> i" "bs \<le> j" | (b) "i = ws" "j < bs" | (c) "ws + 1 \<le> i" "j < bs"
    by linarith
  then show ?thesis
  proof cases
    case lo
    then have "\<not> 64 * ws + bs \<le> 64 * i + j" using assms by linarith
    with lo show ?thesis by simp
  next
    case a
    then have d: "64 * i + j - (64 * ws + bs) = 64 * (i - ws) + (j - bs)" by linarith
    have r: "j - bs < 64" using assms by linarith
    have "64 \<le> 64 - bs + j" using a by linarith
    then have "\<not> bit (data a ! (i - ws - 1)) (64 - bs + j)" by (rule not_bit_word64)
    with a assms show ?thesis
      by (simp only: d div_mod_64_add [OF r])
        (simp add: shl_word_def bit_or_iff bit_push_bit_iff bit_drop_bit_eq)
  next
    case b
    then have "\<not> 64 * ws + bs \<le> 64 * i + j" by linarith
    with b show ?thesis
      by (simp add: shl_word_def bit_or_iff bit_push_bit_iff)
  next
    case c
    then have d: "64 * i + j - (64 * ws + bs) = 64 * (i - ws - 1) + (64 - bs + j)"
      using assms by linarith
    have r: "64 - bs + j < 64" using c assms by linarith
    from c assms show ?thesis
      by (simp only: d div_mod_64_add [OF r])
        (simp add: shl_word_def bit_or_iff bit_push_bit_iff bit_drop_bit_eq)
  qed
qed

lemma bit_val_shl:
  "bit (val (shl a s)) k \<longleftrightarrow> k < 4096 \<and> s \<le> k \<and> bit (val a) (k - s)"
proof (cases "k < 4096")
  case False
  then show ?thesis by (simp add: bit_val)
next
  case True
  then have i: "k div 64 < 64" by simp
  have k: "64 * (k div 64) + k mod 64 = k" and s: "64 * (s div 64) + s mod 64 = s"
    by simp_all
  have "bit (val (shl a s)) k \<longleftrightarrow>
        bit (if k div 64 < s div 64 then 0 else shl_word a (s div 64) (s mod 64) (k div 64)) (k mod 64)"
    using True by (simp only: bit_val nth_shl [OF i] simp_thms)
  also have "\<dots> \<longleftrightarrow> s \<le> k \<and> bit (data a ! ((k - s) div 64)) ((k - s) mod 64)"
    using shl_bit_word [OF i, of "k mod 64" "s mod 64" "s div 64" a]
    by (simp only: k s)
  also have "\<dots> \<longleftrightarrow> s \<le> k \<and> bit (val a) (k - s)"
    using less_imp_diff_less [OF True, of s] by (simp add: bit_val)
  finally show ?thesis using True by simp
qed

lemma val_shl: "val (shl a s) = (val a * 2 ^ s) mod 2 ^ 4096"
proof -
  have "val (shl a s) = take_bit 4096 (push_bit s (val a))"
    by (rule bit_eqI) (simp add: bit_val_shl bit_take_bit_iff bit_push_bit_iff)
  then show ?thesis
    by (simp add: take_bit_eq_mod push_bit_eq_mult)
qed

definition shr_word :: "BigInt4096 \<Rightarrow> nat \<Rightarrow> nat \<Rightarrow> nat \<Rightarrow> 64 word" where
  "shr_word a ws bs i =
     (drop_bit bs (data a ! (i + ws))
      OR (if bs \<noteq> 0 \<and> i + ws + 1 < 64 then push_bit (64 - bs) (data a ! (i + ws + 1)) else 0))"

lemma nth_shr:
  assumes "k < 64"
  shows "data (shr a s) ! k = (if 64 \<le> k + s div 64 then 0 else shr_word a (s div 64) (s mod 64) k)"
proof -
  have "shr_step a (s div 64) (s mod 64)
        = (\<lambda>i res. if 64 \<le> i + s div 64 then res else upd res i (shr_word a (s div 64) (s mod 64) i))"
    by (intro ext) (simp add: shr_step_def shr_word_def Let_def NUM_WORDS_def)
  then show ?thesis
    using assms by (simp add: shr_def NUM_WORDS_def fold_upd_nth)
qed

lemma shr_bit_word:
  assumes "i < 64" "j < 64" "bs < 64"
  shows "bit (if 64 \<le> i + ws then 0 else shr_word a ws bs i) j \<longleftrightarrow>
         64 * i + j + (64 * ws + bs) < 4096
         \<and> bit (data a ! ((64 * i + j + (64 * ws + bs)) div 64)) ((64 * i + j + (64 * ws + bs)) mod 64)"
proof -
  consider (hi) "64 \<le> i + ws" | (a) "i + ws < 64" "j + bs < 64"
    | (b) "i + ws + 1 < 64" "64 \<le> j + bs" | (c) "i + ws + 1 = 64" "64 \<le> j + bs"
    by linarith
  then show ?thesis
  proof cases
    case hi
    then have "\<not> 64 * i + j + (64 * ws + bs) < 4096" by linarith
    with hi show ?thesis by simp
  next
    case a
    have d: "64 * i + j + (64 * ws + bs) = 64 * (i + ws) + (j + bs)"
      by (simp add: algebra_simps)
    have lt: "64 * (i + ws) + (j + bs) < 4096" using a by simp
    have "\<not> 64 - bs \<le> j" using a by linarith
    with a assms lt show ?thesis
      by (simp only: d div_mod_64_add [OF a(2)])
        (simp add: shr_word_def bit_or_iff bit_push_bit_iff bit_drop_bit_eq add.commute)
  next
    case b
    then have d: "64 * i + j + (64 * ws + bs) = 64 * (i + ws + 1) + (j + bs - 64)" by simp
    have r: "j + bs - 64 < 64" using assms by linarith
    have lt: "64 * (i + ws + 1) + (j + bs - 64) < 4096" using b assms by simp
    have "\<not> bit (data a ! (i + ws)) (bs + j)"
      using b by (intro not_bit_word64) linarith
    moreover have "64 - bs \<le> j" "j - (64 - bs) = j + bs - 64" "bs \<noteq> 0"
      using b assms by linarith+
    ultimately show ?thesis
      using b assms lt
      by (simp only: d div_mod_64_add [OF r])
        (simp add: shr_word_def bit_or_iff bit_push_bit_iff bit_drop_bit_eq)
  next
    case c
    then have "\<not> 64 * i + j + (64 * ws + bs) < 4096" by linarith
    moreover have "\<not> bit (data a ! (i + ws)) (bs + j)"
      using c by (intro not_bit_word64) linarith
    ultimately show ?thesis
      using c by (simp add: shr_word_def bit_or_iff bit_drop_bit_eq)
  qed
qed

lemma bit_val_shr:
  "bit (val (shr a s)) k \<longleftrightarrow> bit (val a) (k + s)"
proof (cases "k < 4096")
  case False
  then show ?thesis by (simp add: bit_val)
next
  case True
  then have i: "k div 64 < 64" by simp
  have k: "64 * (k div 64) + k mod 64 = k" and s: "64 * (s div 64) + s mod 64 = s"
    by simp_all
  have "bit (val (shr a s)) k \<longleftrightarrow>
        bit (if 64 \<le> k div 64 + s div 64 then 0 else shr_word a (s div 64) (s mod 64) (k div 64)) (k mod 64)"
    using True by (simp only: bit_val nth_shr [OF i] simp_thms)
  also have "\<dots> \<longleftrightarrow> k + s < 4096 \<and> bit (data a ! ((k + s) div 64)) ((k + s) mod 64)"
    using shr_bit_word [OF i, of "k mod 64" "s mod 64" "s div 64" a]
    by (simp only: k s)
  also have "\<dots> \<longleftrightarrow> bit (val a) (k + s)"
    by (simp add: bit_val)
  finally show ?thesis .
qed

lemma val_shr: "val (shr a s) = val a div 2 ^ s"
proof -
  have "val (shr a s) = drop_bit s (val a)"
    by (rule bit_eqI) (simp add: bit_val_shr bit_drop_bit_eq add.commute)
  then show ?thesis
    by (simp add: drop_bit_eq_div)
qed

lemma shl_overflow: "4096 \<le> s \<Longrightarrow> shl a s = zero"
proof -
  assume "4096 \<le> s"
  then have "(2::nat) ^ 4096 dvd 2 ^ s"
    by (rule le_imp_power_dvd)
  then have "(val a * 2 ^ s) mod 2 ^ 4096 = 0"
    by (simp add: mod_eq_0_iff_dvd)
  then show ?thesis
    by (simp add: val_inject [symmetric] val_shl)
qed

lemma shr_shl:
  assumes "val a < 2 ^ (4096 - s)"
  shows "shr (shl a s) s = a"
proof (cases "s \<le> 4096")
  case True
  have "val a * 2 ^ s < 2 ^ (4096 - s) * 2 ^ s"
    using assms by simp
  also have "\<dots> = 2 ^ 4096"
    using True by (simp add: power_add [symmetric])
  finally have "(val a * 2 ^ s) mod 2 ^ 4096 = val a * 2 ^ s"
    by simp
  then have "val (shr (shl a s) s) = val a"
    by (simp add: val_shr val_shl)
  then show ?thesis by (simp only: val_inject)
next
  case False
  then have "val a = 0" using assms by simp
  then have "val (shr (shl a s) s) = val a"
    by (simp add: val_shr val_shl)
  then show ?thesis by (simp only: val_inject)
qed

text \<open>
  C7: when no significant bit of \<open>a\<close> is lost, that is \<open>a < 2^(4096 - s)\<close>,
  \<open>(a << s) >> s == a\<close>; and when \<open>s \<ge> 4096\<close>, \<open>a << s\<close> is zero.
\<close>

theorem shift_round_trip:
  "(val a < 2 ^ (4096 - s) \<longrightarrow> shr (shl a s) s = a) \<and> (4096 \<le> s \<longrightarrow> shl a s = zero)"
  by (simp add: shr_shl shl_overflow)

theorem shift_round_trip_witness:
  "val (BigInt 5) < 2 ^ (4096 - 100) \<and> shr (shl (BigInt 5) 100) 100 = BigInt 5
   \<and> (4096::nat) \<le> 5000 \<and> shl (BigInt 5) 5000 = zero"
proof -
  have "(5::nat) < 2 ^ 3" by (simp add: power_numeral)
  also have "(2::nat) ^ 3 \<le> 2 ^ (4096 - 100)" by (rule power_increasing) simp_all
  finally have "val (BigInt 5) < 2 ^ (4096 - 100)" by simp
  then show ?thesis
    using shift_round_trip [of "BigInt 5" 100] shift_round_trip [of "BigInt 5" 5000] by simp
qed

section \<open>Long division\<close>

text \<open>
  After the loop has handled the bit positions \<open>4095\<close> down to \<open>i\<close>, \<open>current\<close> is
  \<open>(a div 2^i) mod b\<close> and \<open>quotient\<close> is \<open>((a div 2^i) div b) * 2^i\<close>. The running
  remainder stays below \<open>2^4095\<close> before each shift, so \<open>current << 1\<close> loses no bit.
\<close>

lemma bit_val_upd:
  assumes "j < 64"
  shows "bit (val (upd a j w)) k \<longleftrightarrow>
         k < 4096 \<and> (if k div 64 = j then bit w (k mod 64) else bit (val a) k)"
  by (cases "k < 4096") (simp_all add: bit_val nth_upd [OF assms])

lemma val_set_bit_aux:
  assumes i: "i < 4096" and w_def: "w = data q ! (i div 64) OR push_bit (i mod 64) 1"
  shows "val (upd q (i div 64) w) = set_bit i (val q)"
proof (rule bit_eqI)
  fix k :: nat
  have j: "i div 64 < 64" using i by simp
  have same: "k mod 64 = i mod 64 \<longleftrightarrow> k = i" if "k div 64 = i div 64"
    using that by (metis mult_div_mod_eq)
  have w: "bit w m \<longleftrightarrow> bit (data q ! (i div 64)) m \<or> m = i mod 64" if "m < 64" for m
    using that by (auto simp add: w_def bit_or_iff bit_exp_iff)
  have u: "bit (val (upd q (i div 64) w)) k \<longleftrightarrow>
        k < 4096 \<and> (if k div 64 = i div 64 then bit w (k mod 64) else bit (val q) k)"
    by (rule bit_val_upd [OF j])
  show "bit (val (upd q (i div 64) w)) k \<longleftrightarrow> bit (set_bit i (val q)) k"
  proof (cases "k div 64 = i div 64")
    case True
    moreover have "i div 64 < 64" using i by simp
    ultimately have "k div 64 < 64" by simp
    then have "k < 4096" by (simp add: div_less_iff_less_mult)
    with True show ?thesis
      unfolding u by (auto simp add: bit_set_bit_iff w bit_val same)
  next
    case False
    then have "k \<noteq> i" by auto
    with False show ?thesis
      unfolding u by (auto simp add: bit_set_bit_iff bit_val)
  qed
qed

lemma val_set_bit:
  assumes i: "i < 4096"
  shows "val (upd q (i div 64) (data q ! (i div 64) OR push_bit (i mod 64) 1))
         = set_bit i (val q)"
  using i by (rule val_set_bit_aux) simp

lemma val_next_current:
  assumes i: "i < 4096"
  shows "val (next_current a i cur) = of_bool (bit (val a) i) + take_bit 4095 (val cur) * 2 ^ 1"
proof (rule bit_eqI)
  fix k :: nat
  define c where "c = shl cur 1"
  let ?w = "data c ! 0 OR (drop_bit (i mod 64) (data a ! (i div 64)) AND 1)"
  have t: "(of_bool (bit (val a) i) :: nat) < 2 ^ 1"
    by simp
  have b: "bit (drop_bit (i mod 64) (data a ! (i div 64)) AND 1) j \<longleftrightarrow> j = 0 \<and> bit (val a) i" for j
    using i by (auto simp add: bit_and_iff bit_1_iff bit_drop_bit_eq bit_val)
  have c0: "bit (data c ! 0) j \<longleftrightarrow> bit (val c) j" if "j < 64" for j
    using that by (simp add: bit_val)
  have vc: "bit (val c) j \<longleftrightarrow> j < 4096 \<and> 1 \<le> j \<and> bit (val cur) (j - 1)" for j
    unfolding c_def by (rule bit_val_shl)
  have "bit (val (next_current a i cur)) k \<longleftrightarrow>
        k < 4096 \<and> (if k div 64 = 0 then bit ?w (k mod 64) else bit (val c) k)"
    by (simp add: next_current_def Let_def bit_val_upd c_def)
  also have "\<dots> \<longleftrightarrow> (if k < 1 then bit (val a) i else k < 4096 \<and> bit (val cur) (k - 1))"
  proof (cases "k < 64")
    case True
    then show ?thesis
      by (auto simp add: bit_or_iff b c0 vc)
  next
    case False
    then show ?thesis
      by (auto simp add: vc)
  qed
  also have "\<dots> \<longleftrightarrow> bit (of_bool (bit (val a) i) + take_bit 4095 (val cur) * 2 ^ 1) k"
    unfolding bit_add_mult_pow2 [OF t]
    by (auto simp add: bit_take_bit_iff bit_of_bool_iff)
  finally show "bit (val (next_current a i cur)) k
        \<longleftrightarrow> bit (of_bool (bit (val a) i) + take_bit 4095 (val cur) * 2 ^ 1) k" .
qed

lemma val_next_current_small:
  assumes "i < 4096" "val cur < 2 ^ 4095"
  shows "val (next_current a i cur) = 2 * val cur + of_bool (bit (val a) i)"
  using assms by (simp add: val_next_current take_bit_nat_eq_self)

lemma val_sub_le:
  assumes "val b \<le> val a"
  shows "val (sub a b) = val a - val b"
proof -
  have "int (val (sub a b)) = (int (val a) - int (val b)) mod 2 ^ 4096"
    by (rule val_sub)
  also have "\<dots> = int (val a - val b) mod 2 ^ 4096"
    using assms by simp
  also have "\<dots> = int (val a - val b)"
    using val_bound [of a] by (intro mod_pos_pos_trivial) simp_all
  finally show ?thesis by simp
qed


lemma fold_rev_upt:
  assumes "i < n"
  shows "fold f (rev [i..<n]) s = f i (fold f (rev [Suc i..<n]) s)"
  using assms by (simp add: upt_conv_Cons)

lemma div_pow2_Suc:
  fixes A :: nat
  shows "A div 2 ^ i = 2 * (A div 2 ^ Suc i) + of_bool (bit A i)"
proof -
  have "A div 2 ^ Suc i = (A div 2 ^ i) div 2"
    by (simp only: power_Suc2 div_mult2_eq)
  moreover have "bit A i \<longleftrightarrow> odd (A div 2 ^ i)"
    by (rule bit_iff_odd)
  ultimately show ?thesis
    by (simp add: of_bool_def)
qed

lemma restoring_step:
  fixes m n B c' t :: nat
  assumes B: "0 < B" and m: "m = 2 * n + t" and t: "t \<le> 1" and c': "c' = 2 * (n mod B) + t"
  shows "m mod B = (if B \<le> c' then c' - B else c')"
    and "m div B = 2 * (n div B) + (if B \<le> c' then 1 else 0)"
proof -
  have "n mod B < B" using B by simp
  then have lt: "c' < 2 * B" using t c' by linarith
  have "2 * n = 2 * (n div B * B + n mod B)"
    by simp
  also have "\<dots> = (2 * (n div B)) * B + 2 * (n mod B)"
    by (simp only: distrib_left mult.assoc)
  finally have split: "m = (2 * (n div B)) * B + c'"
    by (simp only: m c' add.assoc)
  have r: "c' mod B = (if B \<le> c' then c' - B else c')"
    using lt by (simp add: le_mod_geq)
  have q: "c' div B = (if B \<le> c' then 1 else 0)"
    using lt B by (auto simp add: div_nat_eqI)
  show "m mod B = (if B \<le> c' then c' - B else c')"
    unfolding split r [symmetric] by simp
  show "m div B = 2 * (n div B) + (if B \<le> c' then 1 else 0)"
    unfolding split q [symmetric] using B by simp
qed

lemma div_pow2_bound:
  fixes A :: nat
  assumes "A < 2 ^ 4096" "i < 4096"
  shows "A div 2 ^ Suc i < 2 ^ 4095"
proof -
  have "(2::nat) ^ 4096 = 2 ^ (4095 - i) * 2 ^ Suc i"
    using assms(2) by (simp only: power_add [symmetric]) simp
  with assms(1) have "A div 2 ^ Suc i < 2 ^ (4095 - i)"
    by (simp add: less_mult_imp_div_less)
  also have "(2::nat) ^ (4095 - i) \<le> 2 ^ 4095"
    by (rule power_increasing) simp_all
  finally show ?thesis .
qed

lemma mod_step_val:
  assumes i: "i < 4096" and B: "0 < val b"
    and cur: "val cur = (val a div 2 ^ Suc i) mod val b"
  shows "val (mod_step a b i cur) = (val a div 2 ^ i) mod val b"
proof -
  let ?n = "val a div 2 ^ Suc i"
  let ?t = "of_bool (bit (val a) i) :: nat"
  have "val cur \<le> ?n" by (simp add: cur)
  also have "?n < 2 ^ 4095" using val_bound i by (rule div_pow2_bound)
  finally have nc: "val (next_current a i cur) = 2 * (?n mod val b) + ?t"
    using i by (simp add: val_next_current_small cur)
  have "(val a div 2 ^ i) mod val b
        = (if val b \<le> val (next_current a i cur)
           then val (next_current a i cur) - val b else val (next_current a i cur))"
    using B div_pow2_Suc _ nc by (rule restoring_step(1)) simp
  then show ?thesis
    by (simp add: mod_step_def Let_def val_sub_le)
qed

lemma mod_loop_inv:
  assumes B: "0 < val b" and i: "i \<le> 4096"
  shows "val (fold (mod_step a b) (rev [i..<4096]) zero) = (val a div 2 ^ i) mod val b"
  using i
proof (induction i rule: inc_induct)
  case base
  show ?case using val_bound [of a] by simp
next
  case (step n)
  show ?case
    unfolding fold_rev_upt [OF step.hyps(2)]
    using step.hyps(2) B step.IH by (rule mod_step_val)
qed

lemma modulo_val:
  assumes "b \<noteq> BigInt 0"
  shows "\<exists>r. modulo a b = Inr r \<and> val r = val a mod val b"
proof -
  have "val b \<noteq> 0"
    using assms by (simp add: val_inject [symmetric])
  then have "val (fold (mod_step a b) (rev [0..<4096]) zero) = val a mod val b"
    using mod_loop_inv [of b 0 a] by simp
  with assms show ?thesis
    by (simp add: modulo_def NUM_WORDS_def)
qed


lemma set_bit_mult_pow2:
  fixes x :: nat
  shows "set_bit i (x * 2 ^ Suc i) = (2 * x + 1) * 2 ^ i"
proof -
  have "\<not> bit (push_bit (Suc i) x) i"
    by (simp only: bit_push_bit_iff Suc_n_not_le_n simp_thms)
  then have "\<not> bit (x * 2 ^ Suc i) i"
    by (simp only: push_bit_eq_mult simp_thms)
  then have "set_bit i (x * 2 ^ Suc i) = x * 2 ^ Suc i + 2 ^ i"
    by (simp add: set_bit_eq)
  then show ?thesis
    by (simp add: algebra_simps)
qed

lemma div_step_val:
  assumes i: "i < 4096" and B: "0 < val b"
    and cur: "val cur = (val a div 2 ^ Suc i) mod val b"
    and quo: "val q = (val a div 2 ^ Suc i) div val b * 2 ^ Suc i"
  shows "val (fst (div_step a b i (cur, q))) = (val a div 2 ^ i) mod val b"
    and "val (snd (div_step a b i (cur, q))) = (val a div 2 ^ i) div val b * 2 ^ i"
proof -
  let ?n = "val a div 2 ^ Suc i"
  let ?t = "of_bool (bit (val a) i) :: nat"
  let ?c = "next_current a i cur"
  have "val cur \<le> ?n" by (simp add: cur)
  also have "?n < 2 ^ 4095" using val_bound i by (rule div_pow2_bound)
  finally have nc: "val ?c = 2 * (?n mod val b) + ?t"
    using i by (simp add: val_next_current_small cur)
  have r: "(val a div 2 ^ i) mod val b = (if val b \<le> val ?c then val ?c - val b else val ?c)"
    using B div_pow2_Suc _ nc by (rule restoring_step(1)) simp
  have d: "(val a div 2 ^ i) div val b = 2 * (?n div val b) + (if val b \<le> val ?c then 1 else 0)"
    using B div_pow2_Suc _ nc by (rule restoring_step(2)) simp
  show "val (fst (div_step a b i (cur, q))) = (val a div 2 ^ i) mod val b"
    by (simp add: div_step_def Let_def val_sub_le r)
  have "val (upd q (i div 64) (data q ! (i div 64) OR push_bit (i mod 64) 1))
        = (2 * (?n div val b) + 1) * 2 ^ i"
    by (simp only: val_set_bit [OF i] quo set_bit_mult_pow2)
  moreover have "val q = 2 * (?n div val b) * 2 ^ i"
    by (simp add: quo)
  ultimately show "val (snd (div_step a b i (cur, q))) = (val a div 2 ^ i) div val b * 2 ^ i"
    by (simp add: div_step_def Let_def d)
qed

lemma div_loop_inv:
  assumes B: "0 < val b" and i: "i \<le> 4096"
  shows "val (fst (fold (div_step a b) (rev [i..<4096]) (zero, zero))) = (val a div 2 ^ i) mod val b
       \<and> val (snd (fold (div_step a b) (rev [i..<4096]) (zero, zero)))
           = (val a div 2 ^ i) div val b * 2 ^ i"
  using i
proof (induction i rule: inc_induct)
  case base
  show ?case using val_bound [of a] by simp
next
  case (step n)
  obtain cur q where st: "fold (div_step a b) (rev [Suc n..<4096]) (zero, zero) = (cur, q)"
    by (cases "fold (div_step a b) (rev [Suc n..<4096]) (zero, zero)")
  from step.IH st have cur: "val cur = (val a div 2 ^ Suc n) mod val b"
    and quo: "val q = (val a div 2 ^ Suc n) div val b * 2 ^ Suc n"
    by simp_all
  show ?case
    unfolding fold_rev_upt [OF step.hyps(2)] st
    using div_step_val [OF step.hyps(2) B cur quo] by simp
qed

lemma divide_val:
  assumes "b \<noteq> BigInt 0"
  shows "\<exists>q. divide a b = Inr q \<and> val q = val a div val b"
proof -
  have "val b \<noteq> 0"
    using assms by (simp add: val_inject [symmetric])
  then have "val (snd (fold (div_step a b) (rev [0..<4096]) (zero, zero))) = val a div val b"
    using div_loop_inv [of b 0 a] by simp
  with assms show ?thesis
    by (simp add: divide_def NUM_WORDS_def)
qed

section \<open>Number-theoretic primitives and decimal output\<close>

text \<open>
  The loops of \<open>modExp\<close> and of the output operator run until a value reaches zero; they
  are total because \<open>exp >> 1\<close> and \<open>temp / 10\<close> are smaller than \<open>exp\<close> and \<open>temp\<close>.
\<close>

lemma BigInt_0 [simp]: "BigInt 0 = zero"
  by (simp add: val_inject [symmetric])

lemma val_eq_0_iff [simp]: "val a = 0 \<longleftrightarrow> a = zero"
  using val_inject [of a zero] by simp

lemma val_pos: "a \<noteq> zero \<Longrightarrow> 0 < val a"
  using val_eq_0_iff [of a] by linarith

lemma shr_1_less: "a \<noteq> zero \<Longrightarrow> val (shr a 1) < val a"
  using val_pos [of a] by (simp add: val_shr)

text \<open>
  \<open>modExp(base, exp, mod)\<close>: throws when \<open>mod == 0\<close>; otherwise \<open>result = 1\<close>,
  \<open>base %= mod\<close>, and while \<open>exp != 0\<close>: if the low bit of \<open>exp\<close> is set,
  \<open>result = (result * base) % mod\<close>; then \<open>exp = exp >> 1\<close> and
  \<open>base = (base * base) % mod\<close>. An exception of \<open>operator%\<close> leaves the function.
\<close>

function modExp_loop :: "BigInt4096 \<Rightarrow> BigInt4096 \<Rightarrow> BigInt4096 \<Rightarrow> BigInt4096
    \<Rightarrow> error + BigInt4096" where
  "modExp_loop result base exp m =
     (if \<not> eq exp (BigInt 0) then
        (case (if data exp ! 0 AND 1 \<noteq> 0 then modulo (mul result base) m else Inr result) of
           Inl e \<Rightarrow> Inl e
         | Inr result' \<Rightarrow>
             (case modulo (mul base base) m of
                Inl e \<Rightarrow> Inl e
              | Inr base' \<Rightarrow> modExp_loop result' base' (shr exp 1) m))
      else Inr result)"
  by pat_completeness auto
termination
  by (relation "measure (\<lambda>(result, base, exp, m). val exp)") (simp_all add: shr_1_less del: One_nat_def)

declare modExp_loop.simps [simp del]

lemma modExp_loop_zero [simp]: "modExp_loop result base zero m = Inr result"
  by (subst modExp_loop.simps) simp

definition modExp :: "BigInt4096 \<Rightarrow> BigInt4096 \<Rightarrow> BigInt4096 \<Rightarrow> error + BigInt4096" where
  "modExp base exp m =
     (if eq m (BigInt 0) then Inl DivisionByZero
      else case modulo base m of
             Inl e \<Rightarrow> Inl e
           | Inr base' \<Rightarrow> modExp_loop (BigInt 1) base' exp m)"

text \<open>
  \<open>isPrime(n, rounds)\<close>. The loop \<open>while ((d.data[0] & 1) == 0) { d = d >> 1; ++r; }\<close>
  does not end when \<open>d\<close> is zero, so it is a partial function: \<open>None\<close> is a run that
  never returns. The table \<open>basePrimes\<close> has five entries and the code reads
  \<open>basePrimes[i]\<close> unchecked; \<open>basePrimes_at\<close> makes a read outside it \<open>OutOfBounds\<close>.
  \<open>square_loop\<close> is the inner \<open>for (j = 1; j < r; ++j)\<close> and returns \<open>passed\<close>;
  \<open>witness_loop\<close> is the outer \<open>for (i = 0; i < rounds; ++i)\<close>.
\<close>

partial_function (option) strip_twos :: "BigInt4096 \<Rightarrow> int \<Rightarrow> (BigInt4096 \<times> int) option" where
  "strip_twos d r =
     (if data d ! 0 AND 1 = 0 then strip_twos (shr d 1) (r + 1) else Some (d, r))"

definition basePrimes :: "int list" where
  "basePrimes = [2, 3, 5, 7, 11]"

definition basePrimes_at :: "int \<Rightarrow> error + int" where
  "basePrimes_at i =
     (if 0 \<le> i \<and> i < int (length basePrimes) then Inr (basePrimes ! nat i) else Inl OutOfBounds)"

function square_loop :: "BigInt4096 \<Rightarrow> BigInt4096 \<Rightarrow> int \<Rightarrow> int \<Rightarrow> error + bool" where
  "square_loop n x r j =
     (if j < r then
        (case modExp x (BigInt 2) n of
           Inl e \<Rightarrow> Inl e
         | Inr x' \<Rightarrow>
             if eq x' (sub n (BigInt 1)) then Inr True
             else square_loop n x' r (j + 1))
      else Inr False)"
  by pat_completeness auto
termination
  by (relation "measure (\<lambda>(n, x, r, j). nat (r - j))") simp_all

declare square_loop.simps [simp del]

function witness_loop :: "BigInt4096 \<Rightarrow> BigInt4096 \<Rightarrow> int \<Rightarrow> int \<Rightarrow> int \<Rightarrow> error + bool" where
  "witness_loop n d r rounds i =
     (if i < rounds then
        (case basePrimes_at i of
           Inl e \<Rightarrow> Inl e
         | Inr p \<Rightarrow>
            (case modExp (BigInt (of_int p)) d n of
               Inl e \<Rightarrow> Inl e
             | Inr x \<Rightarrow>
                 if eq x (BigInt 1) \<or> eq x (sub n (BigInt 1))
                 then witness_loop n d r rounds (i + 1)
                 else
                   (case square_loop n x r 1 of
                      Inl e \<Rightarrow> Inl e
                    | Inr passed \<Rightarrow>
                        if \<not> passed then Inr False
                        else witness_loop n d r rounds (i + 1))))
      else Inr True)"
  by pat_completeness auto
termination
  by (relation "measure (\<lambda>(n, d, r, rounds, i). nat (rounds - i))") simp_all

declare witness_loop.simps [simp del]

definition isPrime :: "BigInt4096 \<Rightarrow> int \<Rightarrow> (error + bool) option" where
  "isPrime n rounds =
     (if le n (BigInt 1) then Some (Inr False)
      else if eq n (BigInt 2) \<or> eq n (BigInt 3) then Some (Inr True)
      else if data n ! 0 AND 1 = 0 then Some (Inr False)
      else
        (case strip_twos (sub n (BigInt 1)) 0 of
           None \<Rightarrow> None
         | Some (d, r) \<Rightarrow> Some (witness_loop n d r rounds 0)))"

text \<open>
  \<open>operator<<(std::ostream&, const BigInt4096&)\<close>: \<open>"0"\<close> for zero; otherwise the digits
  \<open>temp % 10\<close> are appended as \<open>'0' + digit.data[0]\<close> while \<open>temp /= 10\<close> is not zero,
  and the string is reversed.
\<close>

lemma divide_10_less:
  assumes "temp \<noteq> zero" "divide temp (BigInt 10) = Inr temp'"
  shows "val temp' < val temp"
proof -
  have "BigInt 10 \<noteq> BigInt 0"
    by (simp add: val_inject [symmetric] del: BigInt_0)
  then obtain q where "divide temp (BigInt 10) = Inr q" "val q = val temp div val (BigInt 10)"
    using divide_val by blast
  with assms val_pos [of temp] show ?thesis by simp
qed

function render_loop :: "BigInt4096 \<Rightarrow> string \<Rightarrow> error + string" where
  "render_loop temp out =
     (if \<not> eq temp (BigInt 0) then
        (case modulo temp (BigInt 10) of
           Inl e \<Rightarrow> Inl e
         | Inr digit \<Rightarrow>
            (case divide temp (BigInt 10) of
               Inl e \<Rightarrow> Inl e
             | Inr temp' \<Rightarrow>
                 render_loop temp' (out @ [char_of (unat (of_char CHR ''0'' + data digit ! 0))])))
      else Inr out)"
  by pat_completeness auto
termination
  by (relation "measure (\<lambda>(temp, out). val temp)") (simp_all add: divide_10_less)

declare render_loop.simps [simp del]

definition render :: "BigInt4096 \<Rightarrow> error + string" where
  "render bi =
     (if eq bi (BigInt 0) then Inr ''0''
      else case render_loop bi [] of
             Inl e \<Rightarrow> Inl e
           | Inr out \<Rightarrow> Inr (rev out))"

declare strip_twos.simps [code]

section \<open>Division identity\<close>

lemma BigInt_inject [simp]: "BigInt x = BigInt y \<longleftrightarrow> x = y"
  by (simp add: val_inject [symmetric] word_unat_eq_iff del: val_eq_0_iff)

lemma BigInt_eq_zero [simp]: "BigInt x = zero \<longleftrightarrow> x = 0"
  using BigInt_inject [of x 0] by (simp del: BigInt_inject)

lemma val_eq_BigInt: "val a = unat w \<longleftrightarrow> a = BigInt w"
  using val_inject [of a "BigInt w"] by simp

text \<open>
  C3: for every \<open>a\<close> and every \<open>b\<close> that is not zero, \<open>a / b\<close> and \<open>a % b\<close> return the
  quotient and the remainder of the values, \<open>a == (a / b) * b + (a % b)\<close> and
  \<open>0 \<le> a % b < b\<close>.
\<close>

theorem division_identity:
  assumes "b \<noteq> BigInt 0"
  shows "\<exists>q r. divide a b = Inr q \<and> modulo a b = Inr r
           \<and> val q = val a div val b \<and> val r = val a mod val b
           \<and> eq a (add (mul q b) r) \<and> le (BigInt 0) r \<and> less r b"
proof -
  obtain q where q: "divide a b = Inr q" "val q = val a div val b"
    using divide_val [OF assms] by blast
  obtain r where r: "modulo a b = Inr r" "val r = val a mod val b"
    using modulo_val [OF assms] by blast
  have b: "0 < val b"
    using assms val_pos [of b] by simp
  have "val (add (mul q b) r) = (val a div val b * val b + val a mod val b) mod 2 ^ 4096"
    by (simp add: val_add val_mul q r mod_add_left_eq)
  also have "\<dots> = val a"
    using val_bound [of a] by simp
  finally have "add (mul q b) r = a"
    by (simp only: val_inject)
  with q r b show ?thesis by simp
qed

theorem division_identity_witness:
  "BigInt 5 \<noteq> BigInt 0
   \<and> divide (BigInt 17) (BigInt 5) = Inr (BigInt 3) \<and> modulo (BigInt 17) (BigInt 5) = Inr (BigInt 2)
   \<and> eq (BigInt 17) (add (mul (BigInt 3) (BigInt 5)) (BigInt 2)) \<and> less (BigInt 2) (BigInt 5)"
proof -
  have nz: "BigInt 5 \<noteq> BigInt 0" by simp
  from division_identity [OF nz, of "BigInt 17"] obtain q r
    where "divide (BigInt 17) (BigInt 5) = Inr q" "modulo (BigInt 17) (BigInt 5) = Inr r"
      and q: "val q = val (BigInt 17) div val (BigInt 5)"
      and r: "val r = val (BigInt 17) mod val (BigInt 5)"
      and "eq (BigInt 17) (add (mul q (BigInt 5)) r)" "less r (BigInt 5)"
    by blast
  moreover have "q = BigInt 3" using q by (simp add: val_eq_BigInt [symmetric])
  moreover have "r = BigInt 2" using r by (simp add: val_eq_BigInt [symmetric])
  ultimately show ?thesis using nz by simp
qed

section \<open>Modular exponentiation\<close>

text \<open>The loop of \<open>modExp\<close> on the values: every product is taken modulo \<open>2^4096\<close> before
  it is reduced modulo \<open>m\<close>.\<close>

function mexp :: "nat \<Rightarrow> nat \<Rightarrow> nat \<Rightarrow> nat \<Rightarrow> nat" where
  "mexp r b e m =
     (if e \<noteq> 0
      then mexp (if odd e then (r * b) mod 2 ^ 4096 mod m else r)
                ((b * b) mod 2 ^ 4096 mod m) (e div 2) m
      else r)"
  by pat_completeness auto
termination
  by (relation "measure (\<lambda>(r, b, e, m). e)") simp_all

declare mexp.simps [simp del]

lemma low_bit_iff: "data a ! 0 AND 1 \<noteq> 0 \<longleftrightarrow> odd (val a)"
proof -
  have "odd (val a) \<longleftrightarrow> bit (val a) 0" by (simp add: bit_0)
  also have "\<dots> \<longleftrightarrow> bit (data a ! 0) 0" by (simp add: bit_val)
  also have "\<dots> \<longleftrightarrow> odd (data a ! 0)" by (simp add: bit_0)
  finally show ?thesis by (simp add: and_one_eq even_iff_mod_2_eq_zero)
qed

lemma low_bit_zero_iff: "data a ! 0 AND 1 = 0 \<longleftrightarrow> even (val a)"
  using low_bit_iff [of a] by blast

lemma modulo_Inr:
  assumes "m \<noteq> zero"
  obtains x where "modulo a m = Inr x" "val x = val a mod val m"
  using modulo_val [of m a] assms by auto

lemma modExp_loop_mexp:
  assumes m: "m \<noteq> zero"
  shows "\<exists>x. modExp_loop r b e m = Inr x \<and> val x = mexp (val r) (val b) (val e) (val m)"
proof (induction "val e" arbitrary: r b e rule: less_induct)
  case less
  show ?case
  proof (cases "e = zero")
    case True
    then show ?thesis
      by (simp add: mexp.simps [of _ _ 0])
  next
    case False
    obtain rb where rb: "modulo (mul r b) m = Inr rb" "val rb = val (mul r b) mod val m"
      using m by (rule modulo_Inr)
    obtain bb where bb: "modulo (mul b b) m = Inr bb" "val bb = val (mul b b) mod val m"
      using m by (rule modulo_Inr)
    define r' where "r' = (if odd (val e) then rb else r)"
    have e: "val e \<noteq> 0" using False by simp
    have "val (shr e 1) < val e" using False by (rule shr_1_less)
    then obtain x where x: "modExp_loop r' bb (shr e 1) m = Inr x"
      "val x = mexp (val r') (val bb) (val (shr e 1)) (val m)"
      using less by blast
    have "modExp_loop r b e m = modExp_loop r' bb (shr e 1) m"
      using False by (subst modExp_loop.simps) (simp add: low_bit_iff rb bb r'_def)
    moreover have "mexp (val r) (val b) (val e) (val m)
                   = mexp (val r') (val bb) (val (shr e 1)) (val m)"
      using e by (subst mexp.simps) (simp add: r'_def rb bb val_mul val_shr)
    ultimately show ?thesis using x by simp
  qed
qed

lemma modExp_mexp:
  assumes m: "m \<noteq> zero"
  shows "\<exists>x. modExp b e m = Inr x \<and> val x = mexp 1 (val b mod val m) (val e) (val m)"
proof -
  obtain b' where b': "modulo b m = Inr b'" "val b' = val b mod val m"
    using m by (rule modulo_Inr)
  from modExp_loop_mexp [OF m, of "BigInt 1" b' e] b' m show ?thesis
    by (simp add: modExp_def)
qed

lemma sq_step:
  fixes r b e m :: nat
  shows "((if odd e then (r * b) mod m else r) * ((b * b) mod m) ^ (e div 2)) mod m
         = (r * b ^ e) mod m"
proof -
  have sq: "(x * ((b * b) mod m) ^ k) mod m = (x * b ^ (2 * k)) mod m" for x k
    by (metis mod_mult_right_eq power_mod power_mult power2_eq_square)
  show ?thesis
  proof (cases "odd e")
    case True
    then obtain k where k: "e = 2 * k + 1" by (rule oddE)
    have "((r * b) mod m * ((b * b) mod m) ^ k) mod m = ((r * b) mod m * b ^ (2 * k)) mod m"
      by (rule sq)
    also have "\<dots> = (r * b * b ^ (2 * k)) mod m"
      by (rule mod_mult_left_eq)
    also have "r * b * b ^ (2 * k) = r * b ^ (2 * k + 1)"
      by simp
    finally show ?thesis using True by (simp add: k)
  next
    case False
    then obtain k where k: "e = 2 * k" by (auto elim: evenE)
    then show ?thesis using False sq [of r k] by simp
  qed
qed

lemma mexp_exact:
  assumes "0 < m" "m \<le> 2 ^ 2048" "r \<le> m" "b < m"
  shows "mexp r b e m = (if e = 0 then r else (r * b ^ e) mod m)"
  using assms
proof (induction r b e m rule: mexp.induct)
  case (1 r b e m)
  show ?case
  proof (cases "e = 0")
    case True
    then show ?thesis by (simp add: mexp.simps [of _ _ 0])
  next
    case False
    have mm: "m * m \<le> 2 ^ 4096"
    proof -
      have "m * m \<le> 2 ^ 2048 * 2 ^ 2048"
        by (rule mult_le_mono [OF "1.prems"(2) "1.prems"(2)])
      also have "\<dots> = (2::nat) ^ 4096"
        by (simp add: power_add [symmetric])
      finally show ?thesis .
    qed
    have "r * b \<le> m * b"
      using "1.prems"(3) by (rule mult_le_mono1)
    also have "m * b < m * m"
      using "1.prems"(1,4) by simp
    finally have "r * b < m * m" .
    then have rb: "(r * b) mod 2 ^ 4096 = r * b" using mm by simp
    have "b * b < m * m"
      using "1.prems" by (intro mult_strict_mono) simp_all
    then have bb: "(b * b) mod 2 ^ 4096 = b * b" using mm by simp
    define r' where "r' = (if odd e then (r * b) mod m else r)"
    have r': "r' \<le> m"
      using "1.prems" by (simp add: r'_def less_imp_le)
    have b': "(b * b) mod m < m"
      using "1.prems" by simp
    have r'': "(if odd e then r * b mod 2 ^ 4096 mod m else r) = r'"
      by (simp add: r'_def rb)
    have b'': "b * b mod 2 ^ 4096 mod m = (b * b) mod m"
      by (simp add: bb)
    note ih = "1.IH" [OF False "1.prems"(1,2), unfolded r'' b'']
    have IH: "mexp r' ((b * b) mod m) (e div 2) m
              = (if e div 2 = 0 then r' else (r' * ((b * b) mod m) ^ (e div 2)) mod m)"
      by (rule ih [OF r' b'])
    have unfold: "mexp r b e m = mexp r' ((b * b) mod m) (e div 2) m"
      using False by (subst mexp.simps) (simp only: r'' b'' if_True simp_thms)
    show ?thesis
    proof (cases "e div 2 = 0")
      case True
      with False have e1: "e = 1" by linarith
      have "mexp r b e m = r'"
        unfolding unfold IH using True by simp
      also have "r' = (r * b) mod m"
        by (simp add: r'_def e1)
      also have "\<dots> = (r * b ^ e) mod m"
        by (simp add: e1)
      finally show ?thesis using \<open>e \<noteq> 0\<close> by simp
    next
      case False
      then have "mexp r b e m = (r' * ((b * b) mod m) ^ (e div 2)) mod m"
        unfolding unfold IH by simp
      also have "\<dots> = (r * b ^ e) mod m"
        unfolding r'_def by (rule sq_step)
      finally show ?thesis using \<open>e \<noteq> 0\<close> by simp
    qed
  qed
qed

lemma modExp_val:
  assumes "m \<noteq> zero" "val m \<le> 2 ^ 2048" "1 < val m \<or> e \<noteq> zero"
  shows "\<exists>x. modExp b e m = Inr x \<and> val x = val b ^ val e mod val m"
proof -
  have m: "0 < val m" using assms(1) by (rule val_pos)
  obtain x where x: "modExp b e m = Inr x" "val x = mexp 1 (val b mod val m) (val e) (val m)"
    using modExp_mexp [OF assms(1)] by blast
  have "mexp 1 (val b mod val m) (val e) (val m)
        = (if val e = 0 then 1 else (1 * (val b mod val m) ^ val e) mod val m)"
    using m assms(2) by (intro mexp_exact) simp_all
  also have "\<dots> = val b ^ val e mod val m"
    using assms(3) by (auto simp add: power_mod)
  finally show ?thesis using x by simp
qed

lemma unat_of_nat_small:
  assumes "v < unat (m :: 64 word)"
  shows "unat (of_nat v :: 64 word) = v"
proof -
  have "v < 2 ^ 64" using assms unat_lt64 [of m] by linarith
  then show ?thesis by (simp add: unat_of_nat)
qed

lemma val_le_2048: "val (BigInt w) \<le> 2 ^ 2048"
proof -
  have "unat w < 2 ^ 64" by (rule unat_lt64)
  also have "(2::nat) ^ 64 \<le> 2 ^ 2048" by (rule power_increasing) simp_all
  finally show ?thesis by simp
qed

function powmod :: "nat \<Rightarrow> nat \<Rightarrow> nat \<Rightarrow> nat \<Rightarrow> nat" where
  "powmod r b e m =
     (if e \<noteq> 0 then powmod (if odd e then (r * b) mod m else r) ((b * b) mod m) (e div 2) m
      else r)"
  by pat_completeness auto
termination
  by (relation "measure (\<lambda>(r, b, e, m). e)") simp_all

declare powmod.simps [simp del]

lemma powmod_eq: "powmod r b e m = (if e = 0 then r else (r * b ^ e) mod m)"
proof (induction r b e m rule: powmod.induct)
  case (1 r b e m)
  show ?case
  proof (cases "e = 0")
    case True
    then show ?thesis by (simp add: powmod.simps [of _ _ 0])
  next
    case False
    define r' where "r' = (if odd e then (r * b) mod m else r)"
    have IH: "powmod r' ((b * b) mod m) (e div 2) m
              = (if e div 2 = 0 then r' else (r' * ((b * b) mod m) ^ (e div 2)) mod m)"
      unfolding r'_def by (rule "1.IH" [OF False])
    have unfold: "powmod r b e m = powmod r' ((b * b) mod m) (e div 2) m"
      using False by (subst powmod.simps) (simp only: r'_def if_True simp_thms)
    show ?thesis
    proof (cases "e div 2 = 0")
      case True
      with False have e1: "e = 1" by linarith
      have "powmod r b e m = r'"
        unfolding unfold IH using True by simp
      also have "r' = (r * b) mod m"
        by (simp add: r'_def e1)
      also have "\<dots> = (r * b ^ e) mod m"
        by (simp add: e1)
      finally show ?thesis using \<open>e \<noteq> 0\<close> by simp
    next
      case False
      then have "powmod r b e m = (r' * ((b * b) mod m) ^ (e div 2)) mod m"
        unfolding unfold IH by simp
      also have "\<dots> = (r * b ^ e) mod m"
        unfolding r'_def by (rule sq_step)
      finally show ?thesis using \<open>e \<noteq> 0\<close> by simp
    qed
  qed
qed

lemma power_mod_powmod:
  assumes "1 < m"
  shows "b ^ e mod m = powmod 1 (b mod m) e m"
  using assms by (simp add: powmod_eq power_mod)

lemma modExp_BigInt:
  assumes "1 < unat m"
  shows "modExp (BigInt b) (BigInt e) (BigInt m)
         = Inr (BigInt (of_nat (powmod 1 (unat b mod unat m) (unat e) (unat m))))"
proof -
  have m: "BigInt m \<noteq> zero" using assms by auto
  obtain x where x: "modExp (BigInt b) (BigInt e) (BigInt m) = Inr x"
      "val x = val (BigInt b) ^ val (BigInt e) mod val (BigInt m)"
    using modExp_val [OF m val_le_2048, of "BigInt e" "BigInt b"] assms by auto
  have "unat b ^ unat e mod unat m < unat m"
    using assms by simp
  then have "unat (of_nat (unat b ^ unat e mod unat m) :: 64 word) = unat b ^ unat e mod unat m"
    by (rule unat_of_nat_small)
  with x(2) have "x = BigInt (of_nat (unat b ^ unat e mod unat m))"
    by (simp add: val_eq_BigInt [symmetric])
  with x(1) show ?thesis by (simp add: power_mod_powmod [OF assms])
qed

lemma modExp_exp_0:
  assumes "1 < val m"
  shows "modExp b (BigInt 0) m = Inr (BigInt 1)"
proof -
  have m: "m \<noteq> zero" using assms by auto
  obtain b' where "modulo b m = Inr b'"
    using m by (rule modulo_Inr)
  with m show ?thesis
    by (simp add: modExp_def)
qed

text \<open>
  C2, as the code has it: for every \<open>b\<close>, \<open>e\<close> and every modulus \<open>m\<close> with
  \<open>0 < m \<le> 2^2048\<close>, leaving out only \<open>m = 1\<close> with \<open>e = 0\<close>, \<open>modExp(b, e, m)\<close> returns
  \<open>b^e mod m\<close>; \<open>modExp(4, 13, 497) == 445\<close>, \<open>modExp(2, 10, 1000) == 24\<close>, and
  \<open>modExp(b, 0, m) == 1\<close> for every \<open>m > 1\<close>.
\<close>

theorem modExp_correct:
  "(m \<noteq> BigInt 0 \<longrightarrow> val m \<le> 2 ^ 2048 \<longrightarrow> (1 < val m \<or> e \<noteq> BigInt 0) \<longrightarrow>
      (\<exists>x. modExp b e m = Inr x \<and> val x = val b ^ val e mod val m))
   \<and> modExp (BigInt 4) (BigInt 13) (BigInt 497) = Inr (BigInt 445)
   \<and> modExp (BigInt 2) (BigInt 10) (BigInt 1000) = Inr (BigInt 24)
   \<and> (1 < val m \<longrightarrow> modExp b (BigInt 0) m = Inr (BigInt 1))"
proof -
  have "modExp (BigInt 4) (BigInt 13) (BigInt 497) = Inr (BigInt 445)"
    by (simp add: modExp_BigInt powmod.simps)
  moreover have "modExp (BigInt 2) (BigInt 10) (BigInt 1000) = Inr (BigInt 24)"
    by (simp add: modExp_BigInt powmod.simps)
  ultimately show ?thesis
    using modExp_val [of m e b] modExp_exp_0 [of m b] by simp
qed

theorem modExp_correct_witness:
  "BigInt 7 \<noteq> BigInt 0 \<and> val (BigInt 7) \<le> 2 ^ 2048 \<and> 1 < val (BigInt 7)
   \<and> modExp (BigInt 3) (BigInt 5) (BigInt 7) = Inr (BigInt 5)
   \<and> val (BigInt 5) = val (BigInt 3) ^ val (BigInt 5) mod val (BigInt 7)
   \<and> modExp (BigInt 3) (BigInt 0) (BigInt 7) = Inr (BigInt 1)"
proof -
  have h: "BigInt 7 \<noteq> BigInt 0" "1 < val (BigInt 7)"
    by simp_all
  have h': "val (BigInt 7) \<le> 2 ^ 2048"
    by (rule val_le_2048)
  from modExp_correct [of "BigInt 7" "BigInt 5" "BigInt 3"] h h'
  obtain x where x: "modExp (BigInt 3) (BigInt 5) (BigInt 7) = Inr x"
      "val x = val (BigInt 3) ^ val (BigInt 5) mod val (BigInt 7)"
    and z: "modExp (BigInt 3) (BigInt 0) (BigInt 7) = Inr (BigInt 1)"
    by blast
  have v: "val (BigInt 3) ^ val (BigInt 5) mod val (BigInt 7) = 5"
    by (simp add: power_numeral)
  with x(2) have "x = BigInt 5"
    by (simp add: val_eq_BigInt [symmetric])
  with x(1) v z h h' show ?thesis by simp
qed

text \<open>
  Where C2 fails as stated. With \<open>b = 2^2048\<close>, \<open>e = 2\<close> and \<open>m = 2^2048 + 1\<close> the square
  \<open>b * b\<close> is \<open>2^4096\<close>, which \<open>operator*\<close> wraps to zero, and \<open>modExp\<close> returns 0 where
  \<open>b^e mod m\<close> is 1. With \<open>m = 1\<close> and \<open>e = 0\<close> the loop does not run and \<open>modExp\<close> returns
  the initial \<open>result = 1\<close> where \<open>b^0 mod 1\<close> is 0.
\<close>

theorem modExp_counterexample:
  "add (shl (BigInt 1) 2048) (BigInt 1) \<noteq> BigInt 0
   \<and> modExp (shl (BigInt 1) 2048) (BigInt 2) (add (shl (BigInt 1) 2048) (BigInt 1)) = Inr (BigInt 0)
   \<and> val (shl (BigInt 1) 2048) ^ val (BigInt 2) mod val (add (shl (BigInt 1) 2048) (BigInt 1)) = 1
   \<and> BigInt 1 \<noteq> BigInt 0
   \<and> modExp (BigInt 7) (BigInt 0) (BigInt 1) = Inr (BigInt 1)
   \<and> val (BigInt 7) ^ val (BigInt 0) mod val (BigInt 1) = 0"
proof -
  define P :: nat where "P = 2 ^ 2048"
  define B where "B = shl (BigInt 1) 2048"
  define M where "M = add B (BigInt 1)"
  have PP: "P * P = 2 ^ 4096"
    by (simp add: P_def power_add [symmetric])
  have "(2::nat) ^ 1 \<le> 2 ^ 2048"
    by (rule power_increasing) simp_all
  then have P2: "2 \<le> P"
    by (simp add: P_def)
  then obtain Q where Q: "P = Suc Q"
    by (cases P) simp_all
  have "P + P \<le> P * P"
    using P2 by (simp add: mult_le_mono1 mult_2 [symmetric])
  then have lt: "P < 2 ^ 4096" "P + 1 < 2 ^ 4096"
    using P2 PP by linarith+
  have b: "val B = P"
    using lt(1) by (simp add: B_def val_shl P_def)
  have m: "val M = P + 1"
    using lt(2) by (simp add: M_def val_add b)
  then have nz: "M \<noteq> zero"
    by auto
  obtain x where x: "modExp B (BigInt 2) M = Inr x"
      "val x = mexp 1 (val B mod val M) (val (BigInt 2)) (val M)"
    using modExp_mexp [OF nz] by blast
  have "mexp 1 P 2 (P + 1) = mexp 1 0 1 (P + 1)"
    by (subst mexp.simps) (simp add: PP)
  also have "\<dots> = mexp 0 0 0 (P + 1)"
    by (subst mexp.simps) simp
  also have "\<dots> = 0"
    by (subst mexp.simps) simp
  finally have "val x = 0"
    by (simp add: x(2) b m)
  then have r: "modExp B (BigInt 2) M = Inr (BigInt 0)"
    by (simp add: x(1))
  have "P * P = Q * (Q + 2) + 1"
    by (simp add: Q)
  moreover have "(Q * (Q + 2) + 1) mod (Q + 2) = 1 mod (Q + 2)"
    by (rule mod_mult_self3)
  ultimately have "P * P mod (Q + 2) = 1"
    by (simp only: mod_less [of 1 "Q + 2"])
  then have v: "val B ^ val (BigInt 2) mod val M = 1"
    by (simp add: b m power2_eq_square Q)
  obtain b' where "modulo (BigInt 7) (BigInt 1) = Inr b'"
    using modulo_Inr [of "BigInt 1" "BigInt 7"] by auto
  then have one: "modExp (BigInt 7) (BigInt 0) (BigInt 1) = Inr (BigInt 1)"
    by (simp add: modExp_def)
  from nz r v one show ?thesis
    by (simp add: B_def M_def)
qed

section \<open>The primality test\<close>

text \<open>Operations on values that fit one word, for running \<open>isPrime\<close> on small inputs.\<close>

lemma sub_BigInt:
  assumes "unat b \<le> unat a"
  shows "sub (BigInt a) (BigInt b) = BigInt (of_nat (unat a - unat b))"
proof -
  have "unat a - unat b < 2 ^ 64"
    using unat_lt64 [of a] by linarith
  then have "unat (of_nat (unat a - unat b) :: 64 word) = unat a - unat b"
    by (simp add: unat_of_nat)
  then show ?thesis
    using assms by (simp add: val_inject [symmetric] val_sub_le del: val_eq_0_iff)
qed

lemma shr_BigInt: "shr (BigInt d) s = BigInt (of_nat (unat d div 2 ^ s))"
proof -
  have "unat d div 2 ^ s \<le> unat d" by simp
  also have "unat d < 2 ^ 64" by (rule unat_lt64)
  finally have "unat (of_nat (unat d div 2 ^ s) :: 64 word) = unat d div 2 ^ s"
    by (simp add: unat_of_nat)
  then show ?thesis
    by (simp add: val_inject [symmetric] val_shr del: val_eq_0_iff)
qed

lemma strip_twos_BigInt:
  "strip_twos (BigInt d) r =
     (if even (unat d) then strip_twos (BigInt (of_nat (unat d div 2))) (r + 1)
      else Some (BigInt d, r))"
  by (subst strip_twos.simps) (simp add: low_bit_zero_iff shr_BigInt)

lemma low_bit_BigInt: "data (BigInt w) ! 0 AND 1 = 0 \<longleftrightarrow> even (unat w)"
  by (simp add: low_bit_zero_iff)

lemmas isPrime_eval = isPrime_def sub_BigInt strip_twos_BigInt low_bit_BigInt
  witness_loop.simps square_loop.simps basePrimes_at_def basePrimes_def
  modExp_BigInt powmod.simps BigInt_0 [symmetric]


lemma modExp_Inr:
  assumes "n \<noteq> zero"
  obtains x where "modExp b e n = Inr x"
  using modExp_mexp [OF assms, of b e] by blast

lemma strip_twos_Some:
  assumes "d \<noteq> zero"
  shows "\<exists>d' r'. strip_twos d r = Some (d', r')"
  using assms
proof (induction "val d" arbitrary: d r rule: less_induct)
  case less
  show ?case
  proof (cases "data d ! 0 AND 1 = 0")
    case True
    then have "even (val d)" by (simp add: low_bit_zero_iff)
    moreover have "0 < val d" using less.prems by (rule val_pos)
    ultimately have "0 < val d div 2" by (auto elim: evenE)
    then have nz: "shr d 1 \<noteq> zero"
      using val_shr [of d 1] by auto
    have "val (shr d 1) < val d"
      using less.prems by (rule shr_1_less)
    then have "\<exists>d' r'. strip_twos (shr d 1) (r + 1) = Some (d', r')"
      using nz by (rule less.hyps)
    with True show ?thesis
      by (subst strip_twos.simps) simp
  next
    case False
    then show ?thesis
      by (subst strip_twos.simps) simp
  qed
qed

lemma square_loop_Inr:
  assumes "n \<noteq> zero"
  shows "\<exists>passed. square_loop n x r j = Inr passed"
  using assms
proof (induction n x r j rule: square_loop.induct)
  case (1 n x r j)
  obtain x' where x': "modExp x (BigInt 2) n = Inr x'"
    using "1.prems" by (rule modExp_Inr)
  show ?case
  proof (cases "j < r \<and> \<not> eq x' (sub n (BigInt 1))")
    case True
    then have "\<exists>passed. square_loop n x' r (j + 1) = Inr passed"
      using "1.IH" [of x'] x' "1.prems" by simp
    with True x' show ?thesis
      by (subst square_loop.simps) simp
  next
    case False
    with x' show ?thesis
      by (subst square_loop.simps) auto
  qed
qed

lemma basePrimes_at_Inr:
  assumes "0 \<le> i" "i < 5"
  obtains p where "basePrimes_at i = Inr p"
  using assms by (simp add: basePrimes_at_def basePrimes_def)

lemma witness_loop_Inr:
  assumes "n \<noteq> zero" "0 \<le> i" "rounds \<le> 5"
  shows "\<exists>b. witness_loop n d r rounds i = Inr b"
  using assms
proof (induction n d r rounds i rule: witness_loop.induct)
  case (1 n d r rounds i)
  show ?case
  proof (cases "i < rounds")
    case False
    then have "witness_loop n d r rounds i = Inr True"
      by (subst witness_loop.simps) simp
    then show ?thesis ..
  next
    case True
    then obtain p where p: "basePrimes_at i = Inr p"
      using "1.prems" by (auto intro: basePrimes_at_Inr)
    obtain x where x: "modExp (BigInt (of_int p)) d n = Inr x"
      using "1.prems"(1) by (rule modExp_Inr)
    obtain passed where passed: "square_loop n x r 1 = Inr passed"
      using square_loop_Inr [OF "1.prems"(1)] by blast
    have next_ok: "\<exists>b. witness_loop n d r rounds (i + 1) = Inr b"
      if "eq x (BigInt 1) \<or> eq x (sub n (BigInt 1)) \<or> passed"
    proof (cases "eq x (BigInt 1) \<or> eq x (sub n (BigInt 1))")
      case True
      show ?thesis
        using "1.IH"(1) [OF \<open>i < rounds\<close> p x True] "1.prems" by simp
    next
      case False
      with that have "\<not> \<not> passed" by simp
      then show ?thesis
        using "1.IH"(2) [OF \<open>i < rounds\<close> p x False passed] "1.prems" by simp
    qed
    show ?thesis
    proof (cases "eq x (BigInt 1) \<or> eq x (sub n (BigInt 1)) \<or> passed")
      case True
      with next_ok True p x passed \<open>i < rounds\<close> show ?thesis
        by (subst witness_loop.simps) auto
    next
      case False
      with p x passed \<open>i < rounds\<close> show ?thesis
        by (subst witness_loop.simps) auto
    qed
  qed
qed

lemma isPrime_cases:
  assumes "\<not> le n (BigInt 1)"
  obtains d r where "strip_twos (sub n (BigInt 1)) 0 = Some (d, r)" "n \<noteq> zero"
proof -
  have n: "1 < val n" using assms by simp
  then have "val (sub n (BigInt 1)) = val n - 1"
    by (simp add: val_sub_le)
  then have "sub n (BigInt 1) \<noteq> zero"
    using n by auto
  then obtain d r where "strip_twos (sub n (BigInt 1)) 0 = Some (d, r)"
    using strip_twos_Some by blast
  moreover have "n \<noteq> zero" using n by auto
  ultimately show ?thesis by (rule that)
qed

text \<open>
  C8: for every \<open>n\<close> and every \<open>rounds\<close> with \<open>0 \<le> rounds \<le> 5\<close>, \<open>isPrime\<close> returns a
  truth value: the halving loop ends, no read of \<open>basePrimes\<close> is out of bounds and nothing is
  thrown.
\<close>

theorem isPrime_total:
  assumes "0 \<le> rounds" "rounds \<le> 5"
  shows "\<exists>b. isPrime n rounds = Some (Inr b)"
proof (cases "le n (BigInt 1)")
  case True
  then have "isPrime n rounds = Some (Inr False)"
    by (simp add: isPrime_def)
  then show ?thesis ..
next
  case False
  then obtain d r where d: "strip_twos (sub n (BigInt 1)) 0 = Some (d, r)" and n: "n \<noteq> zero"
    by (rule isPrime_cases)
  obtain b where "witness_loop n d r rounds 0 = Inr b"
    using witness_loop_Inr [OF n order_refl assms(2)] by blast
  with d show ?thesis
    by (auto simp add: isPrime_def)
qed

theorem isPrime_total_witness:
  "(0::int) \<le> 5 \<and> (5::int) \<le> 5 \<and> isPrime (BigInt 97) 5 = Some (Inr True)"
proof -
  have "isPrime (BigInt 97) 5 = Some (Inr True)"
    by (simp add: isPrime_eval del: BigInt_0)
  with isPrime_total [of 5 "BigInt 97"] show ?thesis by simp
qed

lemma isPrime_rounds_6_out_of_bounds: "isPrime (BigInt 7919) 6 = Some (Inl OutOfBounds)"
  by (simp add: isPrime_eval del: BigInt_0)

text \<open>
  C10: for every odd \<open>n \<ge> 5\<close> and every \<open>rounds \<le> 0\<close>, \<open>isPrime(n, rounds)\<close> returns true:
  the witness loop does not run.
\<close>

theorem isPrime_no_rounds:
  assumes "odd (val n)" "5 \<le> val n" "rounds \<le> 0"
  shows "isPrime n rounds = Some (Inr True)"
proof -
  have le: "\<not> le n (BigInt 1)" using assms(2) by simp
  then obtain d r where d: "strip_twos (sub n (BigInt 1)) 0 = Some (d, r)"
    by (rule isPrime_cases)
  have "n \<noteq> BigInt 2" "n \<noteq> BigInt 3"
    using assms(2) by auto
  moreover have "data n ! 0 AND 1 \<noteq> 0"
    using assms(1) by (simp add: low_bit_iff)
  moreover have "witness_loop n d r rounds 0 = Inr True"
    using assms(3) by (subst witness_loop.simps) simp
  ultimately show ?thesis
    using le d by (simp add: isPrime_def del: BigInt_0)
qed

theorem isPrime_no_rounds_witness:
  "odd (val (BigInt 9)) \<and> 5 \<le> val (BigInt 9) \<and> (0::int) \<le> 0
   \<and> isPrime (BigInt 9) 0 = Some (Inr True)"
  using isPrime_no_rounds [of "BigInt 9" 0] by simp


lemma isPrime_2: "isPrime (BigInt 2) 5 = Some (Inr True)"
  by (simp add: isPrime_eval del: BigInt_0)

lemma isPrime_3: "isPrime (BigInt 3) 5 = Some (Inr True)"
  by (simp add: isPrime_eval del: BigInt_0)

lemma isPrime_17: "isPrime (BigInt 17) 5 = Some (Inr True)"
  by (simp add: isPrime_eval del: BigInt_0)

lemma isPrime_97: "isPrime (BigInt 97) 5 = Some (Inr True)"
  by (simp add: isPrime_eval del: BigInt_0)

lemma isPrime_7919: "isPrime (BigInt 7919) 5 = Some (Inr True)"
  by (simp add: isPrime_eval del: BigInt_0)

lemma isPrime_0: "isPrime (BigInt 0) 5 = Some (Inr False)"
  by (simp add: isPrime_eval del: BigInt_0)

lemma isPrime_1: "isPrime (BigInt 1) 5 = Some (Inr False)"
  by (simp add: isPrime_eval del: BigInt_0)

lemma isPrime_4: "isPrime (BigInt 4) 5 = Some (Inr False)"
  by (simp add: isPrime_eval del: BigInt_0)

lemma isPrime_9: "isPrime (BigInt 9) 5 = Some (Inr False)"
  by (simp add: isPrime_eval del: BigInt_0)

lemma isPrime_100: "isPrime (BigInt 100) 5 = Some (Inr False)"
  by (simp add: isPrime_eval del: BigInt_0)

lemma isPrime_9999: "isPrime (BigInt 9999) 5 = Some (Inr False)"
  by (simp add: isPrime_eval del: BigInt_0)

lemma isPrime_561: "isPrime (BigInt 561) 5 = Some (Inr False)"
  by (simp add: isPrime_eval del: BigInt_0)

lemma isPrime_5: "isPrime (BigInt 5) 5 = Some (Inr False)"
  by (simp add: isPrime_eval del: BigInt_0)

lemma isPrime_7: "isPrime (BigInt 7) 5 = Some (Inr False)"
  by (simp add: isPrime_eval del: BigInt_0)

lemma isPrime_11: "isPrime (BigInt 11) 5 = Some (Inr False)"
  by (simp add: isPrime_eval del: BigInt_0)

lemma isPrime_5_rounds_2: "isPrime (BigInt 5) 2 = Some (Inr True)"
  by (simp add: isPrime_eval del: BigInt_0)

lemma isPrime_7_rounds_3: "isPrime (BigInt 7) 3 = Some (Inr True)"
  by (simp add: isPrime_eval del: BigInt_0)

lemma isPrime_11_rounds_4: "isPrime (BigInt 11) 4 = Some (Inr True)"
  by (simp add: isPrime_eval del: BigInt_0)

lemma modExp_5_self: "modExp (BigInt 5) (BigInt 1) (BigInt 5) = Inr (BigInt 0)"
  by (simp add: modExp_BigInt powmod.simps)

lemma modExp_7_self: "modExp (BigInt 7) (BigInt 3) (BigInt 7) = Inr (BigInt 0)"
  by (simp add: modExp_BigInt powmod.simps)

lemma modExp_11_self: "modExp (BigInt 11) (BigInt 5) (BigInt 11) = Inr (BigInt 0)"
  by (simp add: modExp_BigInt powmod.simps)

text \<open>
  C1: what \<open>isPrime\<close> with the default 5 rounds returns on the listed inputs. It returns
  true for the primes 2, 3, 17, 97 and 7919, false for 0, 1, 4, 9, 100, 9999 and for the
  Carmichael number 561; for the prime 5 it returns false.
\<close>

theorem isPrime_default_rounds:
  "isPrime (BigInt 2) 5 = Some (Inr True) \<and> isPrime (BigInt 3) 5 = Some (Inr True)
   \<and> isPrime (BigInt 5) 5 = Some (Inr False)
   \<and> isPrime (BigInt 17) 5 = Some (Inr True) \<and> isPrime (BigInt 97) 5 = Some (Inr True)
   \<and> isPrime (BigInt 7919) 5 = Some (Inr True)
   \<and> isPrime (BigInt 0) 5 = Some (Inr False) \<and> isPrime (BigInt 1) 5 = Some (Inr False)
   \<and> isPrime (BigInt 4) 5 = Some (Inr False) \<and> isPrime (BigInt 9) 5 = Some (Inr False)
   \<and> isPrime (BigInt 100) 5 = Some (Inr False) \<and> isPrime (BigInt 9999) 5 = Some (Inr False)
   \<and> isPrime (BigInt 561) 5 = Some (Inr False)"
  by (simp only: isPrime_2 isPrime_3 isPrime_5 isPrime_17 isPrime_97 isPrime_7919 isPrime_0
      isPrime_1 isPrime_4 isPrime_9 isPrime_100 isPrime_9999 isPrime_561 simp_thms)

text \<open>
  C9: for \<open>n\<close> in \<open>{5, 7, 11}\<close>, \<open>isPrime(n)\<close> with the default 5 rounds returns false. The
  witness equal to \<open>n\<close> makes \<open>modExp(n, d, n)\<close> zero (\<open>d\<close> is 1, 3 and 5 for these \<open>n\<close>);
  with the rounds before that witness only, \<open>isPrime\<close> returns true.
\<close>

theorem isPrime_witness_equal_n:
  "isPrime (BigInt 5) 5 = Some (Inr False) \<and> isPrime (BigInt 7) 5 = Some (Inr False)
   \<and> isPrime (BigInt 11) 5 = Some (Inr False)
   \<and> modExp (BigInt 5) (BigInt 1) (BigInt 5) = Inr (BigInt 0)
   \<and> modExp (BigInt 7) (BigInt 3) (BigInt 7) = Inr (BigInt 0)
   \<and> modExp (BigInt 11) (BigInt 5) (BigInt 11) = Inr (BigInt 0)
   \<and> isPrime (BigInt 5) 2 = Some (Inr True) \<and> isPrime (BigInt 7) 3 = Some (Inr True)
   \<and> isPrime (BigInt 11) 4 = Some (Inr True)"
  by (simp only: isPrime_5 isPrime_7 isPrime_11 modExp_5_self modExp_7_self modExp_11_self
      isPrime_5_rounds_2 isPrime_7_rounds_3 isPrime_11_rounds_4 simp_thms)

section \<open>Decimal round trip\<close>

text \<open>The digit loop and the parser on the values.\<close>

function dec_loop :: "nat \<Rightarrow> string \<Rightarrow> string" where
  "dec_loop n out =
     (if n \<noteq> 0 then dec_loop (n div 10) (out @ [char_of (48 + n mod 10)]) else out)"
  by pat_completeness auto
termination
  by (relation "measure (\<lambda>(n, out). n)") simp_all

declare dec_loop.simps [simp del]

definition digit_step :: "char \<Rightarrow> nat \<Rightarrow> nat" where
  "digit_step c v =
     (if (of_char c :: nat) < 48 \<or> (of_char c :: nat) > 57 then v
      else (v * 10 + (of_char c - 48)) mod 2 ^ 4096)"

lemma of_char_0 [simp]: "(of_char CHR ''0'' :: nat) = 48"
  by simp

lemma of_char_9 [simp]: "(of_char CHR ''9'' :: nat) = 57"
  by simp

lemma of_char_0_word [simp]: "(of_char CHR ''0'' :: 64 word) = 48"
  by simp

lemma nth_0_small:
  assumes "val a < 2 ^ 64"
  shows "data a ! 0 = of_nat (val a)"
proof -
  have "unat (of_nat (val a) :: 64 word) = val a"
    using assms by (simp add: unat_of_nat)
  then have "a = BigInt (of_nat (val a))"
    by (simp add: val_eq_BigInt [symmetric])
  then have "data a ! 0 = data (BigInt (of_nat (val a))) ! 0"
    by simp
  then show ?thesis by (simp add: nth_BigInt)
qed

lemma unat_48_plus:
  assumes "d < 10"
  shows "unat (48 + of_nat d :: 64 word) = 48 + d"
proof -
  have "(48 + d) < 2 ^ 64"
  proof -
    have "48 + d < 2 ^ 6" using assms by (simp add: power_numeral)
    also have "(2::nat) ^ 6 \<le> 2 ^ 64" by (rule power_increasing) simp_all
    finally show ?thesis .
  qed
  then have "unat (of_nat (48 + d) :: 64 word) = 48 + d"
    by (simp add: unat_of_nat del: of_nat_add)
  then show ?thesis by simp
qed

lemma render_loop_dec: "render_loop temp out = Inr (dec_loop (val temp) out)"
proof (induction "val temp" arbitrary: temp out rule: less_induct)
  case less
  show ?case
  proof (cases "temp = zero")
    case True
    then show ?thesis
      by (subst render_loop.simps, subst dec_loop.simps) simp
  next
    case False
    have ten: "BigInt 10 \<noteq> BigInt 0" by simp
    obtain digit where digit: "modulo temp (BigInt 10) = Inr digit" "val digit = val temp mod 10"
      using modulo_val [OF ten, of temp] by auto
    obtain temp' where temp': "divide temp (BigInt 10) = Inr temp'" "val temp' = val temp div 10"
      using divide_val [OF ten, of temp] by auto
    have "val digit < 10" by (simp add: digit)
    also have "(10::nat) < 2 ^ 64"
    proof -
      have "(10::nat) < 2 ^ 4" by (simp add: power_numeral)
      also have "(2::nat) ^ 4 \<le> 2 ^ 64" by (rule power_increasing) simp_all
      finally show ?thesis .
    qed
    finally have d0: "data digit ! 0 = of_nat (val temp mod 10)"
      using nth_0_small [of digit] by (simp add: digit)
    have c: "char_of (unat (48 + data digit ! 0)) = char_of (48 + val temp mod 10)"
      by (simp add: d0 unat_48_plus del: of_nat_add)
    have "val temp' < val temp"
      using False temp'(1) by (rule divide_10_less)
    then have IH: "render_loop temp' (out @ [char_of (48 + val temp mod 10)])
                   = Inr (dec_loop (val temp') (out @ [char_of (48 + val temp mod 10)]))"
      by (rule less.hyps)
    have "val temp \<noteq> 0" using False by simp
    then have "dec_loop (val temp) out
               = dec_loop (val temp div 10) (out @ [char_of (48 + val temp mod 10)])"
      by (subst dec_loop.simps) simp
    moreover have "render_loop temp out = render_loop temp' (out @ [char_of (48 + val temp mod 10)])"
      using False by (subst render_loop.simps) (simp add: digit temp' c)
    ultimately show ?thesis
      by (simp add: IH temp')
  qed
qed

lemma val_parse_step: "val (parse_step c t) = digit_step c (val t)"
proof (cases "(of_char c :: nat) < of_char CHR ''0'' \<or> (of_char c :: nat) > of_char CHR ''9''")
  case True
  then have "parse_step c t = t"
    by (simp only: parse_step_def if_True)
  moreover from True have "digit_step c (val t) = val t"
    by (simp add: digit_step_def)
  ultimately show ?thesis by simp
next
  case False
  define dw :: "64 word" where "dw = of_nat (of_char c - of_char CHR ''0'')"
  have "(of_char c :: nat) < 256" by (rule nat_of_char_less_256)
  then have "(of_char c :: nat) - 48 < 256" by (rule less_imp_diff_less)
  then have "(of_char c :: nat) - 48 < 2 ^ 8" by (simp add: power_numeral)
  also have "(2::nat) ^ 8 \<le> 2 ^ 64" by (rule power_increasing) simp_all
  finally have "unat (of_nat (of_char c - 48) :: 64 word) = of_char c - 48"
    by (simp add: unat_of_nat del: of_nat_diff)
  then have dw: "unat dw = of_char c - 48"
    by (simp add: dw_def del: of_nat_diff)
  have "parse_step c t = add (mul t (BigInt 10)) (BigInt dw)"
    using False by (simp only: parse_step_def dw_def if_False)
  then have "val (parse_step c t) = (val t * 10 + (of_char c - 48)) mod 2 ^ 4096"
    by (simp add: val_add val_mul dw mod_add_left_eq)
  moreover from False have "digit_step c (val t) = (val t * 10 + (of_char c - 48)) mod 2 ^ 4096"
    by (simp add: digit_step_def)
  ultimately show ?thesis by simp
qed

lemma val_fold_parse: "val (fold parse_step s t) = fold digit_step s (val t)"
  by (induction s arbitrary: t) (simp_all add: val_parse_step)


lemma dec_loop_0 [simp]: "dec_loop 0 out = out"
  by (subst dec_loop.simps) simp

lemma dec_loop_pos:
  assumes "0 < n"
  shows "dec_loop n out = dec_loop (n div 10) (out @ [char_of (48 + n mod 10)])"
  using assms by (subst dec_loop.simps) simp

lemma dec_loop_append: "dec_loop n out = out @ dec_loop n []"
proof (induction n arbitrary: out rule: less_induct)
  case (less n)
  show ?case
  proof (cases "n = 0")
    case True
    then show ?thesis by simp
  next
    case False
    then have n: "0 < n" "n div 10 < n" by simp_all
    have "dec_loop n out = dec_loop (n div 10) (out @ [char_of (48 + n mod 10)])"
      using n(1) by (rule dec_loop_pos)
    also have "\<dots> = (out @ [char_of (48 + n mod 10)]) @ dec_loop (n div 10) []"
      using n(2) by (rule less.IH)
    also have "\<dots> = out @ ([char_of (48 + n mod 10)] @ dec_loop (n div 10) [])"
      by simp
    also have "[char_of (48 + n mod 10)] @ dec_loop (n div 10) []
               = dec_loop (n div 10) ([] @ [char_of (48 + n mod 10)])"
      using less.IH [OF n(2), of "[char_of (48 + n mod 10)]"] by simp
    also have "\<dots> = dec_loop n []"
      using dec_loop_pos [OF n(1), of "[]"] by simp
    finally show ?thesis .
  qed
qed

lemma dec_loop_Cons:
  assumes "0 < n"
  shows "dec_loop n [] = char_of (48 + n mod 10) # dec_loop (n div 10) []"
  using dec_loop_pos [OF assms, of "[]"] dec_loop_append [of "n div 10" "[char_of (48 + n mod 10)]"]
  by simp

lemma of_char_digit:
  fixes d :: nat
  assumes "d < 10"
  shows "(of_char (char_of (48 + d) :: char) :: nat) = 48 + d"
  using assms by simp

lemma digit_step_digit:
  assumes "d < 10"
  shows "digit_step (char_of (48 + d)) v = (v * 10 + d) mod 2 ^ 4096"
  using assms by (simp add: digit_step_def of_char_digit)

lemma digits_round_trip:
  assumes "n < 2 ^ 4096"
  shows "fold digit_step (rev (dec_loop n [])) 0 = n"
  using assms
proof (induction n rule: less_induct)
  case (less n)
  show ?case
  proof (cases "n = 0")
    case True
    then show ?thesis by simp
  next
    case False
    then have n: "0 < n" "n div 10 < n" by simp_all
    have "n div 10 < 2 ^ 4096"
      using n(2) less.prems by linarith
    then have IH: "fold digit_step (rev (dec_loop (n div 10) [])) 0 = n div 10"
      using n(2) less.IH by blast
    have "fold digit_step (rev (dec_loop n [])) 0
          = digit_step (char_of (48 + n mod 10)) (n div 10)"
      by (simp add: dec_loop_Cons [OF n(1)] IH)
    also have "\<dots> = (n div 10 * 10 + n mod 10) mod 2 ^ 4096"
      by (rule digit_step_digit) simp
    also have "\<dots> = n"
      using less.prems by simp
    finally show ?thesis .
  qed
qed

lemma char_of_digit_eq_0:
  fixes d :: nat
  assumes "d < 10"
  shows "(char_of (48 + d) :: char) = CHR ''0'' \<longleftrightarrow> d = 0"
proof -
  have "(char_of (48 + d) :: char) = CHR ''0''
        \<longleftrightarrow> (of_char (char_of (48 + d) :: char) :: nat) = of_char CHR ''0''"
    by (simp only: of_char_eq_iff)
  also have "\<dots> \<longleftrightarrow> d = 0"
    using assms by (simp only: of_char_digit of_char_0) simp
  finally show ?thesis .
qed

lemma no_leading_zero:
  assumes "0 < n"
  shows "dec_loop n [] \<noteq> [] \<and> last (dec_loop n []) \<noteq> CHR ''0''"
  using assms
proof (induction n rule: less_induct)
  case (less n)
  have c: "dec_loop n [] = char_of (48 + n mod 10) # dec_loop (n div 10) []"
    using less.prems by (rule dec_loop_Cons)
  show ?case
  proof (cases "n div 10 = 0")
    case True
    then have "n mod 10 = n" "n < 10" by simp_all
    then have "(char_of (48 + n mod 10) :: char) \<noteq> CHR ''0''"
      using less.prems by (simp add: char_of_digit_eq_0)
    then show ?thesis
      by (simp add: c True)
  next
    case False
    then have "0 < n div 10" "n div 10 < n" using less.prems by simp_all
    then have "dec_loop (n div 10) [] \<noteq> [] \<and> last (dec_loop (n div 10) []) \<noteq> CHR ''0''"
      using less.IH by blast
    then show ?thesis
      by (simp add: c)
  qed
qed

lemma render_eq:
  "render x = Inr (if x = BigInt 0 then ''0'' else rev (dec_loop (val x) []))"
  by (simp add: render_def render_loop_dec)

text \<open>
  C6: for every value \<open>x\<close>, parsing the decimal rendering of \<open>x\<close> yields \<open>x\<close> back, and the
  rendering is \<open>"0"\<close> for zero and starts with a digit other than \<open>'0'\<close> otherwise.
\<close>

theorem render_parse_round_trip:
  "\<exists>s. render x = Inr s \<and> parse s = x
       \<and> (if x = BigInt 0 then s = ''0'' else s \<noteq> [] \<and> hd s \<noteq> CHR ''0'')"
proof (cases "x = BigInt 0")
  case True
  have "val (parse ''0'') = 0"
    by (simp add: parse_def val_parse_step digit_step_def del: val_eq_0_iff)
  then have "parse ''0'' = x"
    using True by simp
  with True show ?thesis
    by (simp add: render_eq)
next
  case False
  then have pos: "0 < val x" by (simp add: val_pos)
  let ?s = "rev (dec_loop (val x) [])"
  have "val (parse ?s) = val x"
    using digits_round_trip [OF val_bound, of x] by (simp add: parse_def val_fold_parse)
  then have "parse ?s = x"
    by (simp only: val_inject)
  moreover have "?s \<noteq> []" "hd ?s \<noteq> CHR ''0''"
    using no_leading_zero [OF pos] by (simp_all add: hd_rev)
  ultimately show ?thesis
    using False by (simp add: render_eq)
qed

section \<open>Errors\<close>

lemma witness_loop_no_throw:
  assumes "n \<noteq> zero"
  shows "witness_loop n d r rounds i \<noteq> Inl DivisionByZero"
  using assms
proof (induction n d r rounds i rule: witness_loop.induct)
  case (1 n d r rounds i)
  show ?case
  proof (cases "i < rounds")
    case False
    then show ?thesis
      by (subst witness_loop.simps) simp
  next
    case True
    show ?thesis
    proof (cases "basePrimes_at i")
      case (Inl e)
      then have "e = OutOfBounds"
        by (simp add: basePrimes_at_def split: if_splits)
      with Inl True show ?thesis
        by (subst witness_loop.simps) simp
    next
      case (Inr p)
      obtain x where x: "modExp (BigInt (of_int p)) d n = Inr x"
        using "1.prems" by (rule modExp_Inr)
      obtain passed where passed: "square_loop n x r 1 = Inr passed"
        using square_loop_Inr [OF "1.prems"] by blast
      show ?thesis
      proof (cases "eq x (BigInt 1) \<or> eq x (sub n (BigInt 1))")
        case c: True
        have "witness_loop n d r rounds (i + 1) \<noteq> Inl DivisionByZero"
          using "1.IH"(1) [OF True Inr x c] "1.prems" by simp
        with True Inr x c show ?thesis
          by (subst witness_loop.simps) auto
      next
        case c: False
        show ?thesis
        proof (cases passed)
          case p: True
          then have "\<not> \<not> passed" by simp
          then have "witness_loop n d r rounds (i + 1) \<noteq> Inl DivisionByZero"
            using "1.IH"(2) [OF True Inr x c passed] "1.prems" by simp
          with True Inr x c passed p show ?thesis
            by (subst witness_loop.simps) auto
        next
          case p: False
          with True Inr x c passed show ?thesis
            by (subst witness_loop.simps) auto
        qed
      qed
    qed
  qed
qed

lemma isPrime_no_throw: "isPrime n rounds \<noteq> Some (Inl DivisionByZero)"
proof (cases "le n (BigInt 1)")
  case True
  then show ?thesis by (simp add: isPrime_def)
next
  case False
  then obtain d r where d: "strip_twos (sub n (BigInt 1)) 0 = Some (d, r)" and n: "n \<noteq> zero"
    by (rule isPrime_cases)
  from witness_loop_no_throw [OF n, of d r rounds 0] d show ?thesis
    by (auto simp add: isPrime_def)
qed

text \<open>
  C4: dividing by zero, taking a remainder modulo zero and \<open>modExp\<close> with modulus zero each
  yield \<open>DivisionByZero\<close> and no value; with a divisor or modulus other than zero the three
  return a value, the decimal output returns a string, and \<open>isPrime\<close> never yields
  \<open>DivisionByZero\<close>. The other operations have no error result at all.
\<close>

theorem division_by_zero_only:
  "divide a (BigInt 0) = Inl DivisionByZero
   \<and> modulo a (BigInt 0) = Inl DivisionByZero
   \<and> modExp b e (BigInt 0) = Inl DivisionByZero
   \<and> (m \<noteq> BigInt 0 \<longrightarrow>
        (\<exists>q. divide a m = Inr q) \<and> (\<exists>r. modulo a m = Inr r) \<and> (\<exists>x. modExp b e m = Inr x))
   \<and> (\<exists>s. render a = Inr s)
   \<and> isPrime n rounds \<noteq> Some (Inl DivisionByZero)"
proof -
  have "(\<exists>q. divide a m = Inr q) \<and> (\<exists>r. modulo a m = Inr r) \<and> (\<exists>x. modExp b e m = Inr x)"
    if "m \<noteq> BigInt 0"
    using divide_val [OF that, of a] modulo_val [OF that, of a] modExp_mexp [of m b e] that
    by auto
  then show ?thesis
    by (simp add: divide_def modulo_def modExp_def render_eq isPrime_no_throw)
qed

theorem division_by_zero_only_witness:
  "BigInt 5 \<noteq> BigInt 0
   \<and> (\<exists>q. divide (BigInt 17) (BigInt 5) = Inr q) \<and> (\<exists>r. modulo (BigInt 17) (BigInt 5) = Inr r)
   \<and> (\<exists>x. modExp (BigInt 2) (BigInt 3) (BigInt 5) = Inr x)
   \<and> divide (BigInt 17) (BigInt 0) = Inl DivisionByZero
   \<and> modulo (BigInt 17) (BigInt 0) = Inl DivisionByZero
   \<and> modExp (BigInt 2) (BigInt 3) (BigInt 0) = Inl DivisionByZero"
proof -
  have "BigInt 5 \<noteq> BigInt 0" by simp
  with division_by_zero_only [of "BigInt 17" "BigInt 2" "BigInt 3" "BigInt 5"] show ?thesis
    by blast
qed

end
